theory Spec2Isabelle
  imports Main "HOL-Library.AList" "HOL-Library.Sublist"
begin

section \<open>Python values used by normalize\_french\_fst.py\<close>

text \<open>
  A Python \<open>str\<close> is a sequence of Unicode code points, so a string is a list of
  code points and \<open>length\<close> counts what Python's \<open>len\<close> counts. \<open>ascii\<close> writes
  an ASCII literal; a character outside ASCII is written by its code point
  (\<open>233\<close> is U+00E9, e with acute accent).
\<close>

type_synonym ustr = "nat list"

definition ascii :: "string \<Rightarrow> ustr" where
  "ascii s = map of_char s"

text \<open>
  What the program takes from its runtime and not from its own text: the tables of the
  Unicode database above the Latin-1 block (U+0100 and beyond), and the message of the
  exception that the transducer library raises when an input has no path. The tables
  for the code points below 256 are written out in the definitions that follow.
\<close>

record runtime =
  uni_isspace :: "nat \<Rightarrow> bool"
  uni_todecimal :: "nat \<Rightarrow> nat option"
  uni_isdigit :: "nat \<Rightarrow> bool"
  uni_isalnum :: "nat \<Rightarrow> bool"
  fst_error :: "ustr \<Rightarrow> ustr"

text \<open>\<open>str.isspace\<close> on one character, which is also \<open>\s\<close> of \<open>re\<close> on a str pattern
  and the set that \<open>str.strip()\<close> removes.\<close>

definition isspace :: "runtime \<Rightarrow> nat \<Rightarrow> bool" where
  "isspace R c =
     (if c < 256 then c \<in> set [9, 10, 11, 12, 13, 28, 29, 30, 31, 32, 133, 160]
      else uni_isspace R c)"

text \<open>The decimal digit value of a character (\<open>\d\<close> of \<open>re\<close> matches the characters
  that have one).\<close>

definition todecimal :: "runtime \<Rightarrow> nat \<Rightarrow> nat option" where
  "todecimal R c =
     (if c < 256 then (if 48 \<le> c \<and> c \<le> 57 then Some (c - 48) else None)
      else uni_todecimal R c)"

definition isdecimal :: "runtime \<Rightarrow> nat \<Rightarrow> bool" where
  "isdecimal R c = (todecimal R c \<noteq> None)"

text \<open>\<open>str.isdigit\<close> on one character: below 256 the ten ASCII digits and the
  superscripts two, three and one.\<close>

definition isdigit_char :: "runtime \<Rightarrow> nat \<Rightarrow> bool" where
  "isdigit_char R c =
     (if c < 256 then (48 \<le> c \<and> c \<le> 57) \<or> c \<in> set [178, 179, 185]
      else uni_isdigit R c)"

text \<open>\<open>str.isdigit\<close>: false on the empty string.\<close>

definition isdigit :: "runtime \<Rightarrow> ustr \<Rightarrow> bool" where
  "isdigit R s = (s \<noteq> [] \<and> list_all (isdigit_char R) s)"

text \<open>\<open>str.isalnum\<close> on one character, and \<open>\w\<close> of \<open>re\<close>, which adds the
  underscore.\<close>

definition isalnum_char :: "runtime \<Rightarrow> nat \<Rightarrow> bool" where
  "isalnum_char R c =
     (if c < 256 then
        (48 \<le> c \<and> c \<le> 57) \<or> (65 \<le> c \<and> c \<le> 90) \<or> (97 \<le> c \<and> c \<le> 122)
        \<or> c \<in> set [170, 178, 179, 181, 185, 186, 188, 189, 190]
        \<or> (192 \<le> c \<and> c \<le> 214) \<or> (216 \<le> c \<and> c \<le> 246) \<or> (248 \<le> c \<and> c \<le> 255)
      else uni_isalnum R c)"

definition isword :: "runtime \<Rightarrow> nat \<Rightarrow> bool" where
  "isword R c = (isalnum_char R c \<or> c = 95)"

subsection \<open>str(n) and int(s)\<close>

fun digits :: "nat \<Rightarrow> ustr" where
  "digits n = (if n < 10 then [48 + n] else digits (n div 10) @ [48 + n mod 10])"

declare digits.simps [simp del]

definition py_str :: "int \<Rightarrow> ustr" where
  "py_str i = (if i < 0 then 45 # digits (nat (- i)) else digits (nat i))"

text \<open>
  \<open>int(s)\<close> in base ten. The characters below 127 are read as they are, and only the six
  ASCII blanks are skipped around the number; a character from 127 on counts as a blank
  when it is Unicode white space and as a digit when it has a decimal value. After an
  optional sign come digits, with single underscores allowed between two digits. A
  string of more than 4300 digits is refused (the interpreter's default limit).
  \<open>None\<close> is the \<open>ValueError\<close>.
\<close>

definition int_space :: "runtime \<Rightarrow> nat \<Rightarrow> bool" where
  "int_space R c = (if c < 127 then (9 \<le> c \<and> c \<le> 13) \<or> c = 32 else isspace R c)"

definition int_digit :: "runtime \<Rightarrow> nat \<Rightarrow> nat option" where
  "int_digit R c =
     (if c < 127 then (if 48 \<le> c \<and> c \<le> 57 then Some (c - 48) else None)
      else todecimal R c)"

fun digit_values :: "runtime \<Rightarrow> bool \<Rightarrow> ustr \<Rightarrow> nat list option" where
  "digit_values R prev [] = (if prev then Some [] else None)"
| "digit_values R prev (c # cs) =
     (if c = 95 then (if prev then digit_values R False cs else None)
      else case int_digit R c of
             None \<Rightarrow> None
           | Some d \<Rightarrow> map_option ((#) d) (digit_values R True cs))"

definition strip_with :: "(nat \<Rightarrow> bool) \<Rightarrow> ustr \<Rightarrow> ustr" where
  "strip_with p s = rev (dropWhile p (rev (dropWhile p s)))"

definition int_max_str_digits :: nat where
  "int_max_str_digits = 4300"

definition py_int :: "runtime \<Rightarrow> ustr \<Rightarrow> int option" where
  "py_int R s =
     (let t = strip_with (int_space R) s;
          (sign, body) = (case t of
                            [] \<Rightarrow> (1, t)
                          | c # cs \<Rightarrow> if c = 43 then (1, cs)
                                      else if c = 45 then (- 1, cs) else (1, t))
      in case digit_values R False body of
           None \<Rightarrow> None
         | Some ds \<Rightarrow>
             if int_max_str_digits < length ds then None
             else Some (sign * int (foldl (\<lambda>a d. 10 * a + d) 0 ds)))"

subsection \<open>Dictionaries\<close>

text \<open>
  A dict keeps its keys in insertion order, and assigning to a key that is present
  keeps the key's place: an association list under \<open>AList.update\<close>. \<open>d[k]\<close> raises
  \<open>KeyError\<close> on a missing key, \<open>d.get(k, default)\<close> does not.
\<close>

type_synonym ('k, 'v) dict = "('k \<times> 'v) list"

datatype py_error = KeyError

definition getitem :: "('k, 'v) dict \<Rightarrow> 'k \<Rightarrow> py_error + 'v" where
  "getitem d k = (case map_of d k of None \<Rightarrow> Inl KeyError | Some v \<Rightarrow> Inr v)"

definition dict_get :: "('k, 'v) dict \<Rightarrow> 'k \<Rightarrow> 'v \<Rightarrow> 'v" where
  "dict_get d k dflt = (case map_of d k of None \<Rightarrow> dflt | Some v \<Rightarrow> v)"

text \<open>\<open>{**a, **b}\<close>\<close>

definition dict_merge :: "('k, 'v) dict \<Rightarrow> ('k, 'v) dict \<Rightarrow> ('k, 'v) dict" where
  "dict_merge a b = fold (\<lambda>(k, v). AList.update k v) b a"

text \<open>\<open>range(a, b)\<close>\<close>

definition py_range :: "int \<Rightarrow> int \<Rightarrow> int list" where
  "py_range a b = [a..b - 1]"

text \<open>A \<open>for\<close> loop whose body may raise: the first error ends the loop.\<close>

fun for_each :: "'a list \<Rightarrow> ('a \<Rightarrow> 's \<Rightarrow> py_error + 's) \<Rightarrow> 's \<Rightarrow> py_error + 's" where
  "for_each [] body s = Inr s"
| "for_each (x # xs) body s =
     (case body x s of Inl e \<Rightarrow> Inl e | Inr s' \<Rightarrow> for_each xs body s')"

section \<open>FrenchLinguisticRules\<close>

definition UNITS :: "(int, ustr) dict" where
  "UNITS =
     [(0, ascii ''z'' @ [233] @ ascii ''ro''), (1, ascii ''un''), (2, ascii ''deux''),
      (3, ascii ''trois''), (4, ascii ''quatre''), (5, ascii ''cinq''), (6, ascii ''six''),
      (7, ascii ''sept''), (8, ascii ''huit''), (9, ascii ''neuf'')]"

definition TEENS_SPECIAL :: "(int, ustr) dict" where
  "TEENS_SPECIAL =
     [(10, ascii ''dix''), (11, ascii ''onze''), (12, ascii ''douze''), (13, ascii ''treize''),
      (14, ascii ''quatorze''), (15, ascii ''quinze''), (16, ascii ''seize'')]"

definition TEENS_COMPOSED :: "(int, ustr) dict" where
  "TEENS_COMPOSED =
     [(17, ascii ''dix-sept''), (18, ascii ''dix-huit''), (19, ascii ''dix-neuf'')]"

definition TENS_BASES :: "(int, ustr) dict" where
  "TENS_BASES =
     [(2, ascii ''vingt''), (3, ascii ''trente''), (4, ascii ''quarante''),
      (5, ascii ''cinquante''), (6, ascii ''soixante'')]"

definition HUNDREDS_PREFIXES :: "(int, ustr) dict" where
  "HUNDREDS_PREFIXES =
     [(1, []), (2, ascii ''deux''), (3, ascii ''trois''), (4, ascii ''quatre''),
      (5, ascii ''cinq''), (6, ascii ''six''), (7, ascii ''sept''), (8, ascii ''huit''),
      (9, ascii ''neuf'')]"

definition apply_et_rule :: "int \<Rightarrow> bool" where
  "apply_et_rule number = (number mod 10 = 1 \<and> number \<notin> set [11, 81, 91])"

definition apply_s_to_cents :: "int \<Rightarrow> bool" where
  "apply_s_to_cents number = (number \<ge> 200 \<and> number mod 100 = 0)"

definition apply_s_to_vingts :: "int \<Rightarrow> bool" where
  "apply_s_to_vingts number = (number = 80)"

section \<open>Transducers\<close>

text \<open>
  The program builds its transducers with the pynini library, out of three operations:
  \<open>cross\<close> of two acceptors (one input string paired with one output string),
  \<open>union\<close>, and \<open>optimize\<close>, which keeps the relation. A transducer is modelled by
  the relation it denotes, as the list of its (input, output) pairs in the order of
  construction.
\<close>

type_synonym transducer = "(ustr \<times> ustr) list"

definition I_O_FST :: "ustr \<Rightarrow> ustr \<Rightarrow> transducer" where
  "I_O_FST input_str output_str = [(input_str, output_str)]"

definition pynini_union :: "transducer list \<Rightarrow> transducer" where
  "pynini_union fst_list = concat fst_list"

text \<open>
  \<open>apply_fst\<close> composes the acceptor of \<open>text\<close> with the transducer and reads the
  output of the shortest path. The program calls it on strings of digits only (a token
  for which \<open>isdigit\<close> holds, or \<open>str(num)\<close>), so the bracket and escape syntax of
  the library's string compiler never comes into play and the acceptor accepts exactly
  \<open>text\<close>. When \<open>text\<close> is no input of the transducer the
  composition is empty, reading its string raises, and the handler returns the message
  text. All weights are equal, so for an input with several outputs the library's choice
  is not fixed by the program; the model takes the first pair.
\<close>

definition apply_fst :: "runtime \<Rightarrow> ustr \<Rightarrow> transducer \<Rightarrow> ustr" where
  "apply_fst R text f =
     (case map_of f text of
        Some out \<Rightarrow> out
      | None \<Rightarrow> ascii ''Error: '' @ fst_error R text @ ascii '', for input:'' @ [39] @ text @ [39])"

section \<open>Construction of the numbers\<close>

definition items_fst :: "(ustr, ustr) dict \<Rightarrow> transducer" where
  "items_fst m = pynini_union (map (\<lambda>(num, word). I_O_FST num word) m)"

definition build_units_fst :: transducer where
  "build_units_fst = pynini_union (map (\<lambda>(num, word). I_O_FST (py_str num) word) UNITS)"

definition build_teens_fst :: transducer where
  "build_teens_fst =
     (let special_list = map (\<lambda>(num, word). I_O_FST (py_str num) word) TEENS_SPECIAL;
          composed_list = map (\<lambda>(num, word). I_O_FST (py_str num) word) TEENS_COMPOSED
      in pynini_union (special_list @ composed_list))"

definition compound_unit :: "int \<Rightarrow> int \<Rightarrow> (ustr, ustr) dict \<Rightarrow> py_error + (ustr, ustr) dict" where
  "compound_unit ten unit compound_map =
     (let number = ten * 10 + unit;
          connector = (if apply_et_rule number then ascii '' et '' else ascii ''-'')
      in case getitem TENS_BASES ten of
           Inl e \<Rightarrow> Inl e
         | Inr base \<Rightarrow>
             (case getitem UNITS unit of
                Inl e \<Rightarrow> Inl e
              | Inr w \<Rightarrow> Inr (AList.update (py_str number) (base @ connector @ w) compound_map)))"

definition compound_ten :: "int \<Rightarrow> (ustr, ustr) dict \<Rightarrow> py_error + (ustr, ustr) dict" where
  "compound_ten ten compound_map =
     (case getitem TENS_BASES ten of
        Inl e \<Rightarrow> Inl e
      | Inr base \<Rightarrow>
          for_each (py_range 1 10) (compound_unit ten)
            (AList.update (py_str (ten * 10)) base compound_map))"

definition build_compound_20_69_dynamic :: "py_error + transducer" where
  "build_compound_20_69_dynamic =
     (case for_each (py_range 2 7) compound_ten [] of
        Inl e \<Rightarrow> Inl e
      | Inr compound_map \<Rightarrow> Inr (items_fst compound_map))"

definition seventy_step :: "int \<Rightarrow> (ustr, ustr) dict \<Rightarrow> (ustr, ustr) dict" where
  "seventy_step offset seventy_map =
     (let teens_map = dict_merge TEENS_SPECIAL TEENS_COMPOSED;
          number = 60 + offset;
          word = (if offset = 11 then ascii ''soixante et onze''
                  else if offset = 10 then ascii ''soixante-dix''
                  else ascii ''soixante-'' @ dict_get teens_map offset [])
      in AList.update (py_str number) word seventy_map)"

definition build_70_79_dynamic :: transducer where
  "build_70_79_dynamic = items_fst (fold seventy_step (py_range 10 20) [])"

definition eighty_unit :: "int \<Rightarrow> (ustr, ustr) dict \<Rightarrow> py_error + (ustr, ustr) dict" where
  "eighty_unit unit eighty_map =
     (case getitem UNITS unit of
        Inl e \<Rightarrow> Inl e
      | Inr w \<Rightarrow> Inr (AList.update (py_str (80 + unit)) (ascii ''quatre-vingt-'' @ w) eighty_map))"

definition eighty_teen :: "int \<Rightarrow> (ustr, ustr) dict \<Rightarrow> py_error + (ustr, ustr) dict" where
  "eighty_teen offset eighty_map =
     (let teens_map = dict_merge TEENS_SPECIAL TEENS_COMPOSED;
          teen_word = dict_get teens_map offset []
      in Inr (AList.update (py_str (80 + offset)) (ascii ''quatre-vingt-'' @ teen_word) eighty_map))"

definition build_80_99_dynamic :: "py_error + transducer" where
  "build_80_99_dynamic =
     (let eighty_map = (if apply_s_to_vingts 80
                        then AList.update (ascii ''80'') (ascii ''quatre-vingts'') []
                        else [])
      in case for_each (py_range 1 10) eighty_unit eighty_map of
           Inl e \<Rightarrow> Inl e
         | Inr eighty_map \<Rightarrow>
             (case for_each (py_range 10 20) eighty_teen eighty_map of
                Inl e \<Rightarrow> Inl e
              | Inr eighty_map \<Rightarrow> Inr (items_fst eighty_map)))"

definition get_written_form_1_99_dynamic :: "int \<Rightarrow> py_error + ustr" where
  "get_written_form_1_99_dynamic n =
     (let all_teens = dict_merge TEENS_SPECIAL TEENS_COMPOSED in
      if n < 10 then Inr (dict_get UNITS n (py_str n))
      else if 10 \<le> n \<and> n < 20 then Inr (dict_get all_teens n (py_str n))
      else if 20 \<le> n \<and> n < 70 then
        (let ten = n div 10; unit = n mod 10 in
         if unit = 0 then Inr (dict_get TENS_BASES ten (py_str n))
         else
           (let connector = (if apply_et_rule n then ascii '' et '' else ascii ''-'') in
            case getitem TENS_BASES ten of
              Inl e \<Rightarrow> Inl e
            | Inr base \<Rightarrow>
                (case getitem UNITS unit of
                   Inl e \<Rightarrow> Inl e
                 | Inr w \<Rightarrow> Inr (base @ connector @ w))))
      else if 70 \<le> n \<and> n < 80 then
        (let offset = n - 60 in
         if n = 71 then Inr (ascii ''soixante et onze'')
         else if map_of all_teens offset \<noteq> None then
           (case getitem all_teens offset of
              Inl e \<Rightarrow> Inl e
            | Inr w \<Rightarrow> Inr (ascii ''soixante-'' @ w))
         else Inr (ascii ''soixante-dix''))
      else if 80 \<le> n \<and> n < 100 then
        (if n = 80 then Inr (ascii ''quatre-vingts'')
         else
           (let offset = n - 80 in
            if offset < 10 then
              (case getitem UNITS offset of
                 Inl e \<Rightarrow> Inl e
               | Inr w \<Rightarrow> Inr (ascii ''quatre-vingt-'' @ w))
            else Inr (ascii ''quatre-vingt-'' @ dict_get all_teens offset (py_str offset))))
      else Inr (py_str n))"

definition hundreds_unit :: "ustr \<Rightarrow> int \<Rightarrow> int \<Rightarrow> (ustr, ustr) dict \<Rightarrow> py_error + (ustr, ustr) dict" where
  "hundreds_unit pfx hundred_value unit hundreds_map =
     (let number = hundred_value + unit in
      case get_written_form_1_99_dynamic unit of
        Inl e \<Rightarrow> Inl e
      | Inr unit_word \<Rightarrow>
          Inr (AList.update (py_str number) (pfx @ ascii '' '' @ unit_word) hundreds_map))"

definition hundreds_h :: "int \<Rightarrow> (ustr, ustr) dict \<Rightarrow> py_error + (ustr, ustr) dict" where
  "hundreds_h h hundreds_map =
     (let hundred_value = h * 100 in
      case (if h = 1 then Inr (ascii ''cent'')
            else (case getitem HUNDREDS_PREFIXES h of
                    Inl e \<Rightarrow> Inl e
                  | Inr p \<Rightarrow> Inr (p @ ascii '' cent''))) of
        Inl e \<Rightarrow> Inl e
      | Inr pfx \<Rightarrow>
          for_each (py_range 1 100) (hundreds_unit pfx hundred_value)
            (if apply_s_to_cents hundred_value
             then AList.update (py_str hundred_value) (pfx @ ascii ''s'') hundreds_map
             else AList.update (py_str hundred_value) pfx hundreds_map))"

definition build_hundreds_dynamic :: "py_error + transducer" where
  "build_hundreds_dynamic =
     (case for_each (py_range 1 10) hundreds_h [] of
        Inl e \<Rightarrow> Inl e
      | Inr hundreds_map \<Rightarrow> Inr (items_fst hundreds_map))"

definition build_thousand_fst :: transducer where
  "build_thousand_fst = I_O_FST (ascii ''1000'') (ascii ''mille'')"

section \<open>The complete transducer\<close>

definition build_french_cardinal_fst :: "py_error + transducer" where
  "build_french_cardinal_fst =
     (let fst_units = build_units_fst;
          fst_teens = build_teens_fst
      in case build_compound_20_69_dynamic of
           Inl e \<Rightarrow> Inl e
         | Inr fst_compound_20_69 \<Rightarrow>
             (let fst_70_79 = build_70_79_dynamic in
              case build_80_99_dynamic of
                Inl e \<Rightarrow> Inl e
              | Inr fst_80_99 \<Rightarrow>
                  (case build_hundreds_dynamic of
                     Inl e \<Rightarrow> Inl e
                   | Inr fst_hundreds \<Rightarrow>
                       Inr (pynini_union [fst_units, fst_teens, fst_compound_20_69, fst_70_79,
                                   fst_80_99, fst_hundreds, build_thousand_fst]))))"

section \<open>Tokenisation\<close>

text \<open>
  The pattern of \<open>tokenize_text\<close> has four alternatives, tried in this order at each
  position: a run of decimal digits; a run of letters of the class written in the
  pattern, followed by any number of groups of an apostrophe and a run of letters; one
  character that is neither a word character nor white space; one white space
  character. \<open>re.findall\<close> returns the matches from left to right; where no alternative
  matches it moves on by one character, which is then in no token.
\<close>

definition is_letter :: "nat \<Rightarrow> bool" where
  "is_letter c =
     ((97 \<le> c \<and> c \<le> 122) \<or> (65 \<le> c \<and> c \<le> 90)
      \<or> c \<in> set [224, 226, 228, 233, 232, 234, 235, 239, 238, 244, 249, 251, 252, 255, 231,
                   192, 194, 196, 201, 200, 202, 203, 207, 206, 212, 217, 219, 220, 376, 199])"

function word_tail :: "ustr \<Rightarrow> ustr \<times> ustr" where
  "word_tail [] = ([], [])"
| "word_tail [c] = ([], [c])"
| "word_tail (c # d # cs) =
     (if c = 39 \<and> is_letter d then
        (let run = takeWhile is_letter (d # cs);
             more = word_tail (dropWhile is_letter cs)
         in (c # run @ fst more, snd more))
      else ([], c # d # cs))"
  by pat_completeness auto
termination
  by (relation "measure length") (auto intro: le_imp_less_Suc length_dropWhile_le le_SucI)

lemma length_snd_word_tail: "length (snd (word_tail t)) \<le> length t"
proof (induction t rule: word_tail.induct)
  case (3 c d cs)
  have "length (dropWhile is_letter cs) \<le> length cs"
    by (rule length_dropWhile_le)
  with 3 show ?case
    by (auto simp: Let_def)
qed simp_all

function tokenize_text :: "runtime \<Rightarrow> ustr \<Rightarrow> ustr list" where
  "tokenize_text R [] = []"
| "tokenize_text R (c # cs) =
     (if isdecimal R c then
        takeWhile (isdecimal R) (c # cs) # tokenize_text R (dropWhile (isdecimal R) cs)
      else if is_letter c then
        (let run = takeWhile is_letter (c # cs);
             more = word_tail (dropWhile is_letter cs)
         in (run @ fst more) # tokenize_text R (snd more))
      else if \<not> isword R c \<and> \<not> isspace R c then [c] # tokenize_text R cs
      else if isspace R c then [c] # tokenize_text R cs
      else tokenize_text R cs)"
  by pat_completeness auto
termination
proof (relation "measure (\<lambda>(R, t). length t)", goal_cases)
  case 1
  show ?case by simp
next
  case (2 R c cs)
  show ?case by (simp add: le_imp_less_Suc length_dropWhile_le)
next
  case (3 R c cs x xa)
  have "length (snd (word_tail (dropWhile is_letter cs))) \<le> length (dropWhile is_letter cs)"
    by (rule length_snd_word_tail)
  also have "\<dots> \<le> length cs"
    by (rule length_dropWhile_le)
  finally show ?case using 3 by simp
qed simp_all

section \<open>Classification and tag stripping\<close>

definition cardinal_open :: ustr where
  "cardinal_open = ascii ''{ cardinal { integer: '' @ [34]"

definition word_open :: ustr where
  "word_open = ascii ''{ word { value: '' @ [34]"

definition tag_close :: ustr where
  "tag_close = 34 # ascii '' } }''"

definition classify_token :: "runtime \<Rightarrow> ustr \<Rightarrow> transducer \<Rightarrow> ustr" where
  "classify_token R token f =
     (if isdigit R token then
        (let verbalized = apply_fst R token f in cardinal_open @ verbalized @ tag_close)
      else word_open @ token @ tag_close)"

fun join :: "ustr \<Rightarrow> ustr list \<Rightarrow> ustr" where
  "join sep [] = []"
| "join sep [x] = x"
| "join sep (x # y # ys) = x @ sep @ join sep (y # ys)"

definition classify_sentence :: "runtime \<Rightarrow> ustr \<Rightarrow> transducer \<Rightarrow> ustr" where
  "classify_sentence R text f =
     (let tokens = tokenize_text R text
      in join (ascii '' '') (map (\<lambda>token. classify_token R token f) tokens))"

text \<open>
  The two tag patterns of \<open>strip_tags\<close> are an opening literal, a group of one or more
  characters other than the double quote (code point 34), and the closing literal. The
  group is greedy and the closing literal starts with a double quote, so the pattern
  matches at a position exactly when the opening literal is there, the run of characters
  up to the next double quote is not empty, and the closing literal follows that run.
  \<open>re.sub\<close> replaces the matches from left to right by the group and copies the
  characters in between.
\<close>

fun strip_prefix :: "ustr \<Rightarrow> ustr \<Rightarrow> ustr option" where
  "strip_prefix [] t = Some t"
| "strip_prefix (p # ps) [] = None"
| "strip_prefix (p # ps) (c # cs) = (if p = c then strip_prefix ps cs else None)"

definition match_tag :: "ustr \<Rightarrow> ustr \<Rightarrow> (ustr \<times> ustr) option" where
  "match_tag opening t =
     (case strip_prefix opening t of
        None \<Rightarrow> None
      | Some t1 \<Rightarrow>
          (let g = takeWhile (\<lambda>c. c \<noteq> 34) t1 in
           if g = [] then None
           else (case strip_prefix tag_close (dropWhile (\<lambda>c. c \<noteq> 34) t1) of
                   None \<Rightarrow> None
                 | Some rest \<Rightarrow> Some (g, rest))))"

lemma strip_prefix_length: "strip_prefix p t = Some r \<Longrightarrow> length r \<le> length t"
  by (induction p t rule: strip_prefix.induct) (auto split: if_splits)

lemma match_tag_length:
  assumes "match_tag opening (c # cs) = Some (g, rest)"
  shows "length rest < Suc (length cs)"
proof -
  from assms obtain t1 where t1: "strip_prefix opening (c # cs) = Some t1"
    and g: "takeWhile (\<lambda>c. c \<noteq> 34) t1 \<noteq> []"
    and r: "strip_prefix tag_close (dropWhile (\<lambda>c. c \<noteq> 34) t1) = Some rest"
    by (auto simp: match_tag_def Let_def split: option.splits if_splits)
  have "length rest \<le> length (dropWhile (\<lambda>c. c \<noteq> 34) t1)"
    using r by (rule strip_prefix_length)
  also have "\<dots> < length t1"
    using g by (cases t1) (auto simp: le_imp_less_Suc length_dropWhile_le split: if_splits)
  also have "\<dots> \<le> length (c # cs)"
    using t1 by (rule strip_prefix_length)
  finally show ?thesis by simp
qed

function sub_tag :: "ustr \<Rightarrow> ustr \<Rightarrow> ustr" where
  "sub_tag opening [] = []"
| "sub_tag opening (c # cs) =
     (case match_tag opening (c # cs) of
        Some (g, rest) \<Rightarrow> g @ sub_tag opening rest
      | None \<Rightarrow> c # sub_tag opening cs)"
  by pat_completeness auto
termination
  by (relation "measure (\<lambda>(opening, t). length t)") (auto dest: match_tag_length)

text \<open>\<open>re.sub(r'\s+', ' ', t)\<close>: every maximal run of white space becomes one space.\<close>

function sub_spaces :: "runtime \<Rightarrow> ustr \<Rightarrow> ustr" where
  "sub_spaces R [] = []"
| "sub_spaces R (c # cs) =
     (if isspace R c then 32 # sub_spaces R (dropWhile (isspace R) cs)
      else c # sub_spaces R cs)"
  by pat_completeness auto
termination
  by (relation "measure (\<lambda>(R, t). length t)")
     (auto simp: le_imp_less_Suc length_dropWhile_le)

text \<open>
  \<open>re.sub(r'\s+([.,:;!?])', r'\1', t)\<close>: a run of white space is removed when the
  character after the whole run is one of the six punctuation marks. The run is greedy,
  and a shorter run is followed by white space, so no other match exists.
\<close>

definition is_closing_punct :: "nat \<Rightarrow> bool" where
  "is_closing_punct c = (c \<in> set (ascii ''.,:;!?''))"

function sub_space_punct :: "runtime \<Rightarrow> ustr \<Rightarrow> ustr" where
  "sub_space_punct R [] = []"
| "sub_space_punct R (c # cs) =
     (if isspace R c then
        (case dropWhile (isspace R) cs of
           [] \<Rightarrow> c # sub_space_punct R cs
         | p # rest \<Rightarrow>
             if is_closing_punct p then p # sub_space_punct R (tl (dropWhile (isspace R) cs))
             else c # sub_space_punct R cs)
      else c # sub_space_punct R cs)"
  by pat_completeness auto
termination
proof (relation "measure (\<lambda>(R, t). length t)", goal_cases)
  case (3 R c cs p rest)
  have "length (dropWhile (isspace R) cs) \<le> length cs"
    by (rule length_dropWhile_le)
  then show ?case using 3 by simp
qed simp_all

definition strip_tags :: "runtime \<Rightarrow> ustr \<Rightarrow> ustr" where
  "strip_tags R tagged_text =
     strip_with (isspace R)
       (sub_space_punct R (sub_spaces R (sub_tag word_open (sub_tag cardinal_open tagged_text))))"

section \<open>FrenchNormalizer\<close>

record stats =
  normalized :: int
  errors :: int

record FrenchNormalizer =
  self_fst :: transducer
  self_stats :: stats

text \<open>
  The constructor builds the transducer once and sets both counters to zero; what it
  prints is left out. It fails only if a builder does.
\<close>

definition FrenchNormalizer_init :: "py_error + FrenchNormalizer" where
  "FrenchNormalizer_init =
     (case build_french_cardinal_fst of
        Inl e \<Rightarrow> Inl e
      | Inr f \<Rightarrow> Inr \<lparr>self_fst = f, self_stats = \<lparr>normalized = 0, errors = 0\<rparr>\<rparr>)"

text \<open>
  \<open>normalize_number\<close> returns its result and the normalizer with its counters updated.
  The bare \<open>except\<close> catches the \<open>ValueError\<close> of \<open>int\<close>; \<open>apply_fst\<close> has caught
  its own exceptions.
\<close>

definition normalize_number :: "runtime \<Rightarrow> FrenchNormalizer \<Rightarrow> ustr \<Rightarrow> ustr \<times> FrenchNormalizer" where
  "normalize_number R self number_str =
     (case py_int R number_str of
        None \<Rightarrow>
          (number_str,
           self\<lparr>self_stats := (self_stats self)\<lparr>errors := errors (self_stats self) + 1\<rparr>\<rparr>)
      | Some num \<Rightarrow>
          if \<not> (0 \<le> num \<and> num \<le> 1000) then (number_str, self)
          else
            (let result = apply_fst R (py_str num) (self_fst self)
             in (result,
                 self\<lparr>self_stats :=
                        (self_stats self)\<lparr>normalized := normalized (self_stats self) + 1\<rparr>\<rparr>)))"

definition normalize_text :: "runtime \<Rightarrow> FrenchNormalizer \<Rightarrow> ustr \<Rightarrow> ustr" where
  "normalize_text R self text =
     (let tagged_text = classify_sentence R text (self_fst self)
      in strip_tags R tagged_text)"

definition normalize :: "runtime \<Rightarrow> ustr \<Rightarrow> py_error + ustr" where
  "normalize R text =
     (case FrenchNormalizer_init of
        Inl e \<Rightarrow> Inl e
      | Inr normalizer \<Rightarrow> Inr (normalize_text R normalizer text))"

section \<open>Auxiliary definitions for the proofs\<close>

text \<open>
  The inverse of \<open>digits\<close>; the closed form of the lexicon that the builders
  produce (\<open>written\<close> is the value of \<open>get_written_form_1_99_dynamic\<close>, \<open>spelled\<close>
  the word that the builders pair with \<open>str(n)\<close>); and the tag that
  \<open>classify_token\<close> builds for the token of one double quote.
\<close>

definition undigits :: "ustr \<Rightarrow> nat" where
  "undigits s = foldl (\<lambda>a c. 10 * a + (c - 48)) 0 s"

definition written :: "int \<Rightarrow> ustr" where
  "written n = (case get_written_form_1_99_dynamic n of Inl e \<Rightarrow> [] | Inr w \<Rightarrow> w)"

definition cent_prefix :: "int \<Rightarrow> ustr" where
  "cent_prefix h =
     (if h = 1 then ascii ''cent'' else dict_get HUNDREDS_PREFIXES h [] @ ascii '' cent'')"

definition spelled :: "int \<Rightarrow> ustr" where
  "spelled n =
     (if n < 100 then written n
      else if n < 1000 then
        (if n mod 100 = 0
         then cent_prefix (n div 100) @ (if apply_s_to_cents n then ascii ''s'' else [])
         else cent_prefix (n div 100) @ ascii '' '' @ written (n mod 100))
      else ascii ''mille'')"

definition french_lexicon :: transducer where
  "french_lexicon = map (\<lambda>n. (py_str n, spelled n)) [0..1000]"

definition quote_tag :: ustr where
  "quote_tag = word_open @ [34] @ tag_close"

section \<open>Properties\<close>

subsection \<open>Decimal rendering\<close>

lemma undigits_snoc: "undigits (s @ [c]) = 10 * undigits s + (c - 48)"
  by (simp add: undigits_def)

lemma undigits_digits: "undigits (digits n) = n"
proof (induction n rule: digits.induct)
  case (1 n)
  show ?case
  proof (cases "n < 10")
    case True
    then show ?thesis by (simp add: digits.simps [of n] undigits_def)
  next
    case False
    with 1 show ?thesis
      by (simp add: digits.simps [of n] undigits_snoc)
  qed
qed

lemma digits_range: "c \<in> set (digits n) \<Longrightarrow> 48 \<le> c \<and> c \<le> 57"
proof (induction n rule: digits.induct)
  case (1 n)
  show ?case
  proof (cases "n < 10")
    case True
    with 1(2) show ?thesis by (simp add: digits.simps [of n])
  next
    case False
    with 1 show ?thesis
      by (auto simp: digits.simps [of n])
  qed
qed

lemma digits_not_Nil: "digits n \<noteq> []"
  by (subst digits.simps) simp

lemma hd_digits: "48 \<le> hd (digits n) \<and> hd (digits n) \<le> 57"
  using digits_range [of "hd (digits n)" n] digits_not_Nil [of n] by simp

lemma inj_digits: "digits m = digits n \<Longrightarrow> m = n"
  by (metis undigits_digits)

lemma py_str_inj: "py_str i = py_str j \<Longrightarrow> i = j"
proof -
  assume eq: "py_str i = py_str j"
  have neg: "hd (digits n) \<noteq> 45" for n
    using hd_digits [of n] by auto
  have ne: "digits n \<noteq> 45 # t" for n t
    using neg [of n] by (metis list.sel(1))
  show "i = j"
  proof (cases "i < 0")
    case True
    show ?thesis
    proof (cases "j < 0")
      case True
      with \<open>i < 0\<close> eq have "nat (- i) = nat (- j)"
        by (simp add: py_str_def inj_digits)
      with True \<open>i < 0\<close> show ?thesis by simp
    next
      case False
      with \<open>i < 0\<close> eq ne show ?thesis by (simp add: py_str_def) metis
    qed
  next
    case False
    show ?thesis
    proof (cases "j < 0")
      case True
      with \<open>\<not> i < 0\<close> eq ne show ?thesis by (simp add: py_str_def)
    next
      case False
      with \<open>\<not> i < 0\<close> eq have "nat i = nat j"
        by (simp add: py_str_def inj_digits)
      with False \<open>\<not> i < 0\<close> show ?thesis by simp
    qed
  qed
qed

lemma py_str_eq_iff [simp]: "py_str i = py_str j \<longleftrightarrow> i = j"
  using py_str_inj by blast

subsection \<open>Loops and dictionaries\<close>

lemma update_fresh: "k \<notin> fst ` set m \<Longrightarrow> AList.update k v m = m @ [(k, v)]"
  by (induction m) auto

lemma fold_update_fresh:
  "distinct (map kf xs) \<Longrightarrow> \<forall>x\<in>set xs. kf x \<notin> fst ` set m \<Longrightarrow>
   fold (\<lambda>x. AList.update (kf x) (vf x)) xs m = m @ map (\<lambda>x. (kf x, vf x)) xs"
proof (induction xs arbitrary: m)
  case Nil
  then show ?case by simp
next
  case (Cons x xs)
  have "fold (\<lambda>x. AList.update (kf x) (vf x)) xs (m @ [(kf x, vf x)])
        = (m @ [(kf x, vf x)]) @ map (\<lambda>x. (kf x, vf x)) xs"
  proof (rule Cons.IH)
    show "distinct (map kf xs)" using Cons.prems by simp
    show "\<forall>y\<in>set xs. kf y \<notin> fst ` set (m @ [(kf x, vf x)])"
      using Cons.prems by (auto simp: image_iff)
  qed
  with Cons.prems show ?case by (simp add: update_fresh)
qed

lemma for_each_pure:
  "(\<And>x s. x \<in> set xs \<Longrightarrow> body x s = Inr (g x s)) \<Longrightarrow> for_each xs body s = Inr (fold g xs s)"
  by (induction xs arbitrary: s) auto

lemma map_of_keyed:
  "(\<And>a b. kf a = kf b \<Longrightarrow> a = b) \<Longrightarrow>
   map_of (map (\<lambda>x. (kf x, vf x)) xs) (kf k) = (if k \<in> set xs then Some (vf k) else None)"
  by (induction xs) auto

subsection \<open>Closed form of the lexicon\<close>

lemma getitem_UNITS: "0 \<le> u \<Longrightarrow> u \<le> 9 \<Longrightarrow> \<exists>w. getitem UNITS u = Inr w"
proof -
  assume "0 \<le> u" "u \<le> 9"
  then have "u = 0 \<or> u = 1 \<or> u = 2 \<or> u = 3 \<or> u = 4 \<or> u = 5 \<or> u = 6 \<or> u = 7 \<or> u = 8 \<or> u = 9"
    by arith
  then show ?thesis
    by (elim disjE) (simp_all add: getitem_def UNITS_def)
qed

lemma getitem_TENS_BASES: "2 \<le> t \<Longrightarrow> t \<le> 6 \<Longrightarrow> \<exists>w. getitem TENS_BASES t = Inr w"
proof -
  assume "2 \<le> t" "t \<le> 6"
  then have "t = 2 \<or> t = 3 \<or> t = 4 \<or> t = 5 \<or> t = 6"
    by arith
  then show ?thesis
    by (elim disjE) (simp_all add: getitem_def TENS_BASES_def)
qed

lemma getitem_present: "map_of d k \<noteq> None \<Longrightarrow> \<exists>w. getitem d k = Inr w"
  by (auto simp: getitem_def)

lemma get_written_form_total: "\<exists>w. get_written_form_1_99_dynamic n = Inr w"
proof -
  consider "n < 10" | "10 \<le> n \<and> n < 20" | "20 \<le> n \<and> n < 70" | "70 \<le> n \<and> n < 80"
    | "80 \<le> n \<and> n < 100" | "100 \<le> n"
    by linarith
  then show ?thesis
  proof cases
    case 3
    then have "2 \<le> n div 10" "n div 10 \<le> 6" "0 \<le> n mod 10" "n mod 10 \<le> 9"
      by presburger+
    then obtain b w where "getitem TENS_BASES (n div 10) = Inr b" "getitem UNITS (n mod 10) = Inr w"
      using getitem_TENS_BASES getitem_UNITS by blast
    with 3 show ?thesis
      by (simp add: get_written_form_1_99_dynamic_def Let_def)
  next
    case 4
    then show ?thesis
      using getitem_present [of "dict_merge TEENS_SPECIAL TEENS_COMPOSED" "n - 60"]
      by (auto simp: get_written_form_1_99_dynamic_def Let_def)
  next
    case 5
    show ?thesis
    proof (cases "n = 80 \<or> 90 \<le> n")
      case True
      with 5 show ?thesis
        by (auto simp: get_written_form_1_99_dynamic_def Let_def)
    next
      case False
      with 5 have "0 \<le> n - 80" "n - 80 \<le> 9" by simp_all
      then obtain w where "getitem UNITS (n - 80) = Inr w"
        using getitem_UNITS by blast
      with 5 False show ?thesis
        by (simp add: get_written_form_1_99_dynamic_def Let_def)
    qed
  qed (simp_all add: get_written_form_1_99_dynamic_def Let_def)
qed

lemma get_written_form_written: "get_written_form_1_99_dynamic n = Inr (written n)"
  using get_written_form_total [of n] by (auto simp: written_def)

subsection \<open>The builders below one hundred, by evaluation\<close>

lemma upto_from_0: "[0..numeral n::int] = 0 # [1..numeral n]"
  by (simp add: upto.simps)

lemma upto_from_1: "[1..numeral n::int] = 1 # [2..numeral n]"
  by (simp add: upto.simps)

lemmas rule_defs = UNITS_def TEENS_SPECIAL_def TEENS_COMPOSED_def TENS_BASES_def
  HUNDREDS_PREFIXES_def apply_et_rule_def apply_s_to_cents_def apply_s_to_vingts_def

lemmas num_defs =
  digits.simps [of "numeral k" for k] digits.simps [of 0] digits.simps [of 1]
  digits.simps [of "Suc 0"]
  py_str_def [of "numeral k" for k] py_str_def [of 0] py_str_def [of 1]
  py_str_def [of "- numeral k" for k]
  written_def [of "numeral k" for k] written_def [of 0] written_def [of 1]
  spelled_def [of "numeral k" for k] spelled_def [of 0] spelled_def [of 1]
  get_written_form_1_99_dynamic_def [of "numeral k" for k]
  get_written_form_1_99_dynamic_def [of 0] get_written_form_1_99_dynamic_def [of 1]

lemmas py_defs = ascii_def getitem_def dict_get_def dict_merge_def
  py_range_def upto_rec_numeral upto_from_0 upto_from_1 Let_def

lemmas fst_defs = I_O_FST_def pynini_union_def items_fst_def

lemma units_eq: "build_units_fst = map (\<lambda>n. (py_str n, spelled n)) [0..9]"
  by (simp add: build_units_fst_def rule_defs py_defs fst_defs num_defs)

lemma teens_eq: "build_teens_fst = map (\<lambda>n. (py_str n, spelled n)) [10..19]"
  by (simp add: build_teens_fst_def rule_defs py_defs fst_defs num_defs)

lemma seventy_eq: "build_70_79_dynamic = map (\<lambda>n. (py_str n, spelled n)) [70..79]"
  by (simp add: build_70_79_dynamic_def seventy_step_def rule_defs py_defs fst_defs num_defs)

lemma eighty_eq: "build_80_99_dynamic = Inr (map (\<lambda>n. (py_str n, spelled n)) [80..99])"
  by (simp add: build_80_99_dynamic_def eighty_unit_def eighty_teen_def
      rule_defs py_defs fst_defs num_defs)

lemma compound_eq: "build_compound_20_69_dynamic = Inr (map (\<lambda>n. (py_str n, spelled n)) [20..69])"
  by (simp add: build_compound_20_69_dynamic_def compound_ten_def compound_unit_def
      rule_defs py_defs fst_defs num_defs)

subsection \<open>The hundreds\<close>

lemma map_upto_shift: "map (\<lambda>u. f (a + u)) [i..j] = map f [a + i..a + j]"
proof (induction i j rule: upto.induct)
  case (1 i j)
  show ?case
  proof (cases "i \<le> j")
    case True
    with 1 show ?thesis
      by (simp add: upto_rec1 [of i j] upto_rec1 [of "a + i" "a + j"] add.assoc)
  next
    case False
    then show ?thesis by simp
  qed
qed

lemma keys_keyed: "fst ` set (map (\<lambda>n. (kf n, vf n)) xs) = kf ` set xs"
  by (induction xs) auto

lemma hundreds_unit_pure:
  "hundreds_unit pfx hv u m = Inr (AList.update (py_str (hv + u)) (pfx @ ascii '' '' @ written u) m)"
  by (simp add: hundreds_unit_def get_written_form_written)

lemma hundreds_inner:
  assumes "\<forall>k\<in>fst ` set m. \<exists>j. k = py_str j \<and> j \<le> hv"
  shows "for_each (py_range 1 100) (hundreds_unit pfx hv) m =
         Inr (m @ map (\<lambda>u. (py_str (hv + u), pfx @ ascii '' '' @ written u)) [1..99])"
proof -
  have d: "distinct (map (\<lambda>u. py_str (hv + u)) [1..99])"
    by (simp add: distinct_map inj_on_def)
  have f: "\<forall>u\<in>set [1..99]. py_str (hv + u) \<notin> fst ` set m"
  proof
    fix u assume "u \<in> set [1..99]"
    then have "1 \<le> u" by simp
    show "py_str (hv + u) \<notin> fst ` set m"
    proof
      assume "py_str (hv + u) \<in> fst ` set m"
      with assms obtain j where "py_str (hv + u) = py_str j" "j \<le> hv" by blast
      with \<open>1 \<le> u\<close> show False by simp
    qed
  qed
  have "for_each (py_range 1 100) (hundreds_unit pfx hv) m =
        Inr (fold (\<lambda>u. AList.update (py_str (hv + u)) (pfx @ ascii '' '' @ written u)) [1..99] m)"
    by (simp add: py_range_def for_each_pure hundreds_unit_pure)
  also have "\<dots> = Inr (m @ map (\<lambda>u. (py_str (hv + u), pfx @ ascii '' '' @ written u)) [1..99])"
    using fold_update_fresh [OF d f] by simp
  finally show ?thesis .
qed

lemma getitem_HUNDREDS_PREFIXES:
  "1 \<le> h \<Longrightarrow> h \<le> 9 \<Longrightarrow> getitem HUNDREDS_PREFIXES h = Inr (dict_get HUNDREDS_PREFIXES h [])"
proof -
  assume "1 \<le> h" "h \<le> 9"
  then have "h = 1 \<or> h = 2 \<or> h = 3 \<or> h = 4 \<or> h = 5 \<or> h = 6 \<or> h = 7 \<or> h = 8 \<or> h = 9"
    by arith
  then show ?thesis
    by (elim disjE) (simp_all add: getitem_def dict_get_def HUNDREDS_PREFIXES_def)
qed

lemma hundreds_h_eq:
  assumes h: "1 \<le> h" "h \<le> 9"
    and keys: "\<forall>k\<in>fst ` set m. \<exists>j. k = py_str j \<and> j < 100 * h"
  shows "hundreds_h h m = Inr (m @ map (\<lambda>n. (py_str n, spelled n)) [100 * h..100 * h + 99])"
proof -
  let ?hv = "h * 100"
  let ?pfx = "cent_prefix h"
  let ?round = "if apply_s_to_cents ?hv then ?pfx @ ascii ''s'' else ?pfx"
  have fresh: "py_str ?hv \<notin> fst ` set m"
  proof
    assume "py_str ?hv \<in> fst ` set m"
    with keys obtain j where "py_str ?hv = py_str j" "j < 100 * h" by blast
    then show False by simp
  qed
  have m1: "AList.update (py_str ?hv) ?round m = m @ [(py_str ?hv, ?round)]"
    using fresh by (rule update_fresh)
  have keys1: "\<forall>k\<in>fst ` set (m @ [(py_str ?hv, ?round)]). \<exists>j. k = py_str j \<and> j \<le> ?hv"
    using keys by (auto simp: image_iff)
  have pre: "(if h = 1 then Inr (ascii ''cent'')
              else (case getitem HUNDREDS_PREFIXES h of
                      Inl e \<Rightarrow> Inl e
                    | Inr p \<Rightarrow> Inr (p @ ascii '' cent''))) = (Inr ?pfx :: py_error + ustr)"
    using h by (simp add: getitem_HUNDREDS_PREFIXES cent_prefix_def)
  have step: "hundreds_h h m =
        for_each (py_range 1 100) (hundreds_unit ?pfx ?hv) (m @ [(py_str ?hv, ?round)])"
    unfolding hundreds_h_def Let_def pre using m1 by (simp split: if_splits)
  have sp0: "spelled ?hv = ?round"
    using h by (simp add: spelled_def)
  have sp: "spelled (?hv + u) = ?pfx @ ascii '' '' @ written u" if "u \<in> set [1..99]" for u
  proof -
    from that have u: "1 \<le> u" "u \<le> 99" by simp_all
    with h have "100 \<le> ?hv + u" "?hv + u < 1000" "(?hv + u) mod 100 = u" "(?hv + u) div 100 = h"
      by simp_all
    with u show ?thesis by (simp add: spelled_def)
  qed
  have "map (\<lambda>u. (py_str (?hv + u), ?pfx @ ascii '' '' @ written u)) [1..99]
        = map (\<lambda>u. (py_str (?hv + u), spelled (?hv + u))) [1..99]"
    using sp by (intro map_cong) simp_all
  also have "\<dots> = map (\<lambda>n. (py_str n, spelled n)) [?hv + 1..?hv + 99]"
    by (rule map_upto_shift [of "\<lambda>n. (py_str n, spelled n)"])
  finally have blk: "map (\<lambda>u. (py_str (?hv + u), ?pfx @ ascii '' '' @ written u)) [1..99]
        = map (\<lambda>n. (py_str n, spelled n)) [?hv + 1..?hv + 99]" .
  have "[100 * h..100 * h + 99] = ?hv # [?hv + 1..?hv + 99]"
    using upto_rec1 [of "h * 100" "h * 100 + 99"] by (simp add: mult.commute)
  then show ?thesis
    unfolding step hundreds_inner [OF keys1] blk by (simp add: sp0)
qed

lemma hundreds_loop:
  "1 \<le> a \<Longrightarrow> a \<le> 10 \<Longrightarrow> \<forall>k\<in>fst ` set m. \<exists>j. k = py_str j \<and> j < 100 * a \<Longrightarrow>
   for_each [a..9] hundreds_h m = Inr (m @ map (\<lambda>n. (py_str n, spelled n)) [100 * a..999])"
proof (induction a "9::int" arbitrary: m rule: upto.induct)
  case (1 a)
  show ?case
  proof (cases "a \<le> 9")
    case True
    let ?m' = "m @ map (\<lambda>n. (py_str n, spelled n)) [100 * a..100 * a + 99]"
    have hh: "hundreds_h a m = Inr ?m'"
      using 1(2) True 1(4) by (rule hundreds_h_eq)
    have keys': "\<forall>k\<in>fst ` set ?m'. \<exists>j. k = py_str j \<and> j < 100 * (a + 1)"
    proof
      fix k assume "k \<in> fst ` set ?m'"
      then consider "k \<in> fst ` set m" | "k \<in> py_str ` {100 * a..100 * a + 99}"
        by (auto simp: image_Un keys_keyed)
      then show "\<exists>j. k = py_str j \<and> j < 100 * (a + 1)"
      proof cases
        case 1
        with \<open>\<forall>k\<in>fst ` set m. \<exists>j. k = py_str j \<and> j < 100 * a\<close>
        obtain j where "k = py_str j" "j < 100 * a" by blast
        then show ?thesis by (intro exI [of _ j]) simp
      next
        case 2
        then obtain j where "k = py_str j" "j \<le> 100 * a + 99" by auto
        then show ?thesis by (intro exI [of _ j]) simp
      qed
    qed
    have ih: "for_each [a + 1..9] hundreds_h ?m' =
              Inr (?m' @ map (\<lambda>n. (py_str n, spelled n)) [100 * (a + 1)..999])"
      using True 1(2) by (intro 1(1) keys') simp_all
    have split: "[100 * a..999] = [100 * a..100 * a + 99] @ [100 * (a + 1)..999]"
      using True 1(2) upto_split2 [of "100 * a" "100 * a + 99" 999] by (simp add: algebra_simps)
    show ?thesis
      by (simp add: upto_rec1 [OF True] hh ih split)
  next
    case False
    with 1(3) have "a = 10" by simp
    then show ?thesis by simp
  qed
qed

lemma hundreds_eq:
  "build_hundreds_dynamic = Inr (map (\<lambda>n. (py_str n, spelled n)) [100..999])"
  using hundreds_loop [of 1 "[]"]
  by (simp add: build_hundreds_dynamic_def py_range_def items_fst_def pynini_union_def
      I_O_FST_def comp_def case_prod_beta)

subsection \<open>The complete lexicon\<close>

lemma thousand_eq: "build_thousand_fst = map (\<lambda>n. (py_str n, spelled n)) [1000..1000]"
  by (simp add: build_thousand_fst_def fst_defs num_defs ascii_def)

lemma upto_0_1000:
  "[0..1000::int] = [0..9] @ [10..19] @ [20..69] @ [70..79] @ [80..99] @ [100..999] @ [1000..1000]"
  using upto_split2 [of 0 9 1000] upto_split2 [of 10 19 1000] upto_split2 [of 20 69 1000]
    upto_split2 [of 70 79 1000] upto_split2 [of 80 99 1000] upto_split2 [of 100 999 1000]
  by simp

lemma lexicon_parts:
  "build_units_fst @ build_teens_fst @ map (\<lambda>n. (py_str n, spelled n)) [20..69] @ build_70_79_dynamic
   @ map (\<lambda>n. (py_str n, spelled n)) [80..99] @ map (\<lambda>n. (py_str n, spelled n)) [100..999]
   @ build_thousand_fst = french_lexicon"
  unfolding french_lexicon_def upto_0_1000 map_append units_eq teens_eq seventy_eq thousand_eq
  by (rule refl)

lemma lexicon_eq: "build_french_cardinal_fst = Inr french_lexicon"
  unfolding build_french_cardinal_fst_def Let_def compound_eq eighty_eq hundreds_eq
  using lexicon_parts by (simp add: pynini_union_def)

lemma init_eq:
  "FrenchNormalizer_init =
   Inr \<lparr>self_fst = french_lexicon, self_stats = \<lparr>normalized = 0, errors = 0\<rparr>\<rparr>"
  by (simp add: FrenchNormalizer_init_def lexicon_eq)

lemma lookup_lexicon:
  "map_of french_lexicon (py_str n) = (if 0 \<le> n \<and> n \<le> 1000 then Some (spelled n) else None)"
  unfolding french_lexicon_def
  by (subst map_of_keyed) (auto dest: py_str_inj)

lemma apply_fst_lexicon:
  "0 \<le> n \<Longrightarrow> n \<le> 1000 \<Longrightarrow> apply_fst R (py_str n) french_lexicon = spelled n"
  by (simp add: apply_fst_def lookup_lexicon)

lemmas int_defs = py_int_def strip_with_def int_space_def int_digit_def int_max_str_digits_def
  isspace_def todecimal_def

subsection \<open>Exact spellings\<close>

lemma normalize_number_in_range:
  "py_int R s = Some n \<Longrightarrow> 0 \<le> n \<Longrightarrow> n \<le> 1000 \<Longrightarrow>
   fst (normalize_number R \<lparr>self_fst = french_lexicon, self_stats = st\<rparr> s) = spelled n"
  by (simp add: normalize_number_def apply_fst_lexicon)

lemmas spell_defs = num_defs rule_defs py_defs cent_prefix_def

text \<open>
  C4. The et-connector predicate is true exactly for the integers n with n % 10 == 1 that
  are not 11, 81 or 91; and a fresh normalizer spells "21" as "vingt et un", "22" as
  "vingt-deux", "81" as "quatre-vingt-un", "91" as "quatre-vingt-onze" and "11" as "onze".
\<close>

theorem et_rule_exactness:
  "(apply_et_rule n \<longleftrightarrow> n mod 10 = 1 \<and> n \<notin> {11, 81, 91}) \<and>
   (\<exists>N. FrenchNormalizer_init = Inr N \<and>
      fst (normalize_number R N (ascii ''21'')) = ascii ''vingt et un'' \<and>
      fst (normalize_number R N (ascii ''22'')) = ascii ''vingt-deux'' \<and>
      fst (normalize_number R N (ascii ''81'')) = ascii ''quatre-vingt-un'' \<and>
      fst (normalize_number R N (ascii ''91'')) = ascii ''quatre-vingt-onze'' \<and>
      fst (normalize_number R N (ascii ''11'')) = ascii ''onze'')"
proof -
  have rule: "apply_et_rule n \<longleftrightarrow> n mod 10 = 1 \<and> n \<notin> {11, 81, 91}"
    by (simp add: apply_et_rule_def)
  have p: "py_int R (ascii ''21'') = Some 21" "py_int R (ascii ''22'') = Some 22"
    "py_int R (ascii ''81'') = Some 81" "py_int R (ascii ''91'') = Some 91"
    "py_int R (ascii ''11'') = Some 11"
    by (simp_all add: int_defs ascii_def)
  have s: "spelled 21 = ascii ''vingt et un''" "spelled 22 = ascii ''vingt-deux''"
    "spelled 81 = ascii ''quatre-vingt-un''" "spelled 91 = ascii ''quatre-vingt-onze''"
    "spelled 11 = ascii ''onze''"
    by (simp_all add: spell_defs)
  show ?thesis
    using rule by (simp add: init_eq normalize_number_in_range [OF p(1)]
        normalize_number_in_range [OF p(2)] normalize_number_in_range [OF p(3)]
        normalize_number_in_range [OF p(4)] normalize_number_in_range [OF p(5)] s)
qed

text \<open>
  C6. The base-60 and vigesimal systems: a fresh normalizer spells "70" as "soixante-dix",
  "71" as "soixante et onze", "79" as "soixante-dix-neuf", "80" as "quatre-vingts", "81" as
  "quatre-vingt-un" and "99" as "quatre-vingt-dix-neuf".
\<close>

theorem base60_vigesimal_exactness:
  "\<exists>N. FrenchNormalizer_init = Inr N \<and>
      fst (normalize_number R N (ascii ''70'')) = ascii ''soixante-dix'' \<and>
      fst (normalize_number R N (ascii ''71'')) = ascii ''soixante et onze'' \<and>
      fst (normalize_number R N (ascii ''79'')) = ascii ''soixante-dix-neuf'' \<and>
      fst (normalize_number R N (ascii ''80'')) = ascii ''quatre-vingts'' \<and>
      fst (normalize_number R N (ascii ''81'')) = ascii ''quatre-vingt-un'' \<and>
      fst (normalize_number R N (ascii ''99'')) = ascii ''quatre-vingt-dix-neuf''"
proof -
  have p: "py_int R (ascii ''70'') = Some 70" "py_int R (ascii ''71'') = Some 71"
    "py_int R (ascii ''79'') = Some 79" "py_int R (ascii ''80'') = Some 80"
    "py_int R (ascii ''81'') = Some 81" "py_int R (ascii ''99'') = Some 99"
    by (simp_all add: int_defs ascii_def)
  have s: "spelled 70 = ascii ''soixante-dix''" "spelled 71 = ascii ''soixante et onze''"
    "spelled 79 = ascii ''soixante-dix-neuf''" "spelled 80 = ascii ''quatre-vingts''"
    "spelled 81 = ascii ''quatre-vingt-un''" "spelled 99 = ascii ''quatre-vingt-dix-neuf''"
    by (simp_all add: spell_defs)
  show ?thesis
    by (simp add: init_eq normalize_number_in_range [OF p(1)]
        normalize_number_in_range [OF p(2)] normalize_number_in_range [OF p(3)]
        normalize_number_in_range [OF p(4)] normalize_number_in_range [OF p(5)]
        normalize_number_in_range [OF p(6)] s)
qed

text \<open>
  C7. Agreement of "cent" and invariance of "mille": a fresh normalizer spells "200" as
  "deux cents", "201" as "deux cent un", "100" as "cent" and "1000" as "mille".
\<close>

theorem cent_agreement_mille_invariance:
  "\<exists>N. FrenchNormalizer_init = Inr N \<and>
      fst (normalize_number R N (ascii ''200'')) = ascii ''deux cents'' \<and>
      fst (normalize_number R N (ascii ''201'')) = ascii ''deux cent un'' \<and>
      fst (normalize_number R N (ascii ''100'')) = ascii ''cent'' \<and>
      fst (normalize_number R N (ascii ''1000'')) = ascii ''mille''"
proof -
  have p: "py_int R (ascii ''200'') = Some 200" "py_int R (ascii ''201'') = Some 201"
    "py_int R (ascii ''100'') = Some 100" "py_int R (ascii ''1000'') = Some 1000"
    by (simp_all add: int_defs ascii_def)
  have s: "spelled 200 = ascii ''deux cents''" "spelled 201 = ascii ''deux cent un''"
    "spelled 100 = ascii ''cent''" "spelled 1000 = ascii ''mille''"
    by (simp_all add: spell_defs)
  show ?thesis
    by (simp add: init_eq normalize_number_in_range [OF p(1)]
        normalize_number_in_range [OF p(2)] normalize_number_in_range [OF p(3)]
        normalize_number_in_range [OF p(4)] s)
qed

subsection \<open>int after str\<close>

lemma digit_values_digits:
  "\<forall>c\<in>set s. 48 \<le> c \<and> c \<le> 57 \<Longrightarrow> s \<noteq> [] \<or> prev \<Longrightarrow>
   digit_values R prev s = Some (map (\<lambda>c. c - 48) s)"
proof (induction s arbitrary: prev)
  case Nil
  then show ?case by simp
next
  case (Cons c cs)
  from Cons.prems have c: "48 \<le> c" "c \<le> 57" by simp_all
  have "digit_values R True cs = Some (map (\<lambda>c. c - 48) cs)"
    using Cons.prems by (intro Cons.IH) simp_all
  with c show ?case by (simp add: int_digit_def)
qed

lemma strip_with_unchanged:
  "s \<noteq> [] \<Longrightarrow> \<not> p (hd s) \<Longrightarrow> \<not> p (last s) \<Longrightarrow> strip_with p s = s"
proof -
  assume s: "s \<noteq> []" and h: "\<not> p (hd s)" and l: "\<not> p (last s)"
  have 1: "dropWhile p s = s"
    using s h by (cases s) simp_all
  have "rev s = [] \<or> \<not> p (hd (rev s))"
    using l by (simp add: hd_rev)
  then have 2: "dropWhile p (rev s) = rev s"
    by (simp only: dropWhile_eq_self_iff)
  show ?thesis
    by (simp add: strip_with_def 1 2)
qed

lemma strip_with_head: "\<not> p c \<Longrightarrow> \<exists>t. strip_with p (c # cs) = c # t"
proof -
  assume c: "\<not> p c"
  have "dropWhile p (rev cs @ [c]) = dropWhile p (rev cs) @ [c]"
    using c by (rule dropWhile_append3)
  with c show ?thesis by (simp add: strip_with_def)
qed

lemma length_digits: "length (digits m) \<le> Suc m"
proof (induction m rule: digits.induct)
  case (1 n)
  show ?case
  proof (cases "n < 10")
    case True
    then show ?thesis by (simp add: digits.simps [of n])
  next
    case False
    with 1 have "length (digits (n div 10)) \<le> Suc (n div 10)" by simp
    with False show ?thesis by (simp add: digits.simps [of n])
  qed
qed

lemma last_digits: "48 \<le> last (digits m) \<and> last (digits m) \<le> 57"
  using digits_range [of "last (digits m)" m] digits_not_Nil [of m] by simp

lemma py_int_digits:
  assumes "m < 4300"
  shows "py_int R (digits m) = Some (int m)"
proof -
  let ?s = "digits m"
  have ne: "?s \<noteq> []" by (rule digits_not_Nil)
  have hd: "48 \<le> hd ?s" "hd ?s \<le> 57" using hd_digits [of m] by simp_all
  have la: "48 \<le> last ?s" "last ?s \<le> 57" using last_digits [of m] by simp_all
  have strip: "strip_with (int_space R) ?s = ?s"
    using ne hd la by (intro strip_with_unchanged) (simp_all add: int_space_def)
  obtain c cs where s: "?s = c # cs" using ne by (cases ?s) auto
  with hd have c: "c \<noteq> 43" "c \<noteq> 45" by auto
  have dv: "digit_values R False ?s = Some (map (\<lambda>c. c - 48) ?s)"
    using ne digits_range [of _ m] by (intro digit_values_digits) auto
  have val: "foldl (\<lambda>a d. 10 * a + d) 0 (map (\<lambda>c. c - 48) ?s) = undigits ?s"
    by (simp add: undigits_def foldl_map)
  have len: "\<not> int_max_str_digits < length ?s"
    using length_digits [of m] assms by (simp add: int_max_str_digits_def)
  have "py_int R ?s = Some (int (undigits ?s))"
    unfolding py_int_def strip Let_def
    using c dv val len by (simp add: s)
  then show ?thesis by (simp add: undigits_digits)
qed

lemma py_int_py_str: "0 \<le> n \<Longrightarrow> n \<le> 1000 \<Longrightarrow> py_int R (py_str n) = Some n"
  using py_int_digits [of "nat n" R] by (simp add: py_str_def)

lemma py_int_letter_head:
  assumes "97 \<le> c" "c \<le> 122"
  shows "py_int R (c # cs) = None"
proof -
  from assms have "\<not> int_space R c" by (simp add: int_space_def)
  then obtain t where t: "strip_with (int_space R) (c # cs) = c # t"
    using strip_with_head by blast
  from assms have "digit_values R False (c # t) = None"
    by (simp add: int_digit_def)
  with assms show ?thesis
    unfolding py_int_def t Let_def by simp
qed

subsection \<open>The spelled forms start with a lower-case letter\<close>

lemma written_head_list:
  "list_all (\<lambda>n. written n \<noteq> [] \<and> 97 \<le> hd (written n) \<and> hd (written n) \<le> 122) [0..99]"
  by (simp add: spell_defs)

lemma cent_prefix_head:
  "1 \<le> h \<Longrightarrow> h \<le> 9 \<Longrightarrow>
   cent_prefix h \<noteq> [] \<and> 97 \<le> hd (cent_prefix h) \<and> hd (cent_prefix h) \<le> 122"
proof -
  assume "1 \<le> h" "h \<le> 9"
  then have "h = 1 \<or> h = 2 \<or> h = 3 \<or> h = 4 \<or> h = 5 \<or> h = 6 \<or> h = 7 \<or> h = 8 \<or> h = 9"
    by arith
  then show ?thesis
    by (elim disjE) (simp_all add: cent_prefix_def dict_get_def HUNDREDS_PREFIXES_def ascii_def)
qed

lemma spelled_head:
  assumes "0 \<le> n" "n \<le> 1000"
  shows "spelled n \<noteq> [] \<and> 97 \<le> hd (spelled n) \<and> hd (spelled n) \<le> 122"
proof -
  consider "n < 100" | "100 \<le> n \<and> n < 1000" | "n = 1000"
    using assms by linarith
  then show ?thesis
  proof cases
    case 1
    with assms have "n \<in> set [0..99]" by simp
    with written_head_list 1 show ?thesis
      by (simp add: list_all_iff spelled_def del: set_upto)
  next
    case 2
    then have "1 \<le> n div 100" "n div 100 \<le> 9" by presburger+
    from cent_prefix_head [OF this] 2 show ?thesis
      by (auto simp: spelled_def)
  next
    case 3
    then show ?thesis by (simp add: spelled_def ascii_def)
  qed
qed

subsection \<open>The lexicon and normalize\_number\<close>

lemma normalize_number_stats:
  "fst (normalize_number R (N\<lparr>self_stats := st\<rparr>) s) = fst (normalize_number R N s)"
  by (simp add: normalize_number_def split: option.splits)

text \<open>
  C5. The lexicon that build\_french\_cardinal\_fst unites is the concatenation of the
  outputs of the seven sub-range builders; it has exactly 1001 entries, its numeral strings
  are, in order, str(0), ..., str(1000), and they are pairwise distinct: every integer of
  [0,1000] is covered exactly once, by exactly one builder.
\<close>

theorem lexicon_covers_range_once:
  "\<exists>c e h lex.
     build_compound_20_69_dynamic = Inr c \<and> build_80_99_dynamic = Inr e \<and>
     build_hundreds_dynamic = Inr h \<and>
     lex = build_units_fst @ build_teens_fst @ c @ build_70_79_dynamic @ e @ h
           @ build_thousand_fst \<and>
     build_french_cardinal_fst = Inr lex \<and>
     length lex = 1001 \<and>
     map fst lex = map py_str [0..1000] \<and>
     distinct (map fst lex)"
proof -
  have keys: "map fst french_lexicon = map py_str [0..1000]"
    by (simp add: french_lexicon_def comp_def)
  have "distinct (map py_str [0..1000])"
    by (simp add: distinct_map inj_on_def)
  with keys have d: "distinct (map fst french_lexicon)" by simp
  have len: "length french_lexicon = 1001"
    by (simp add: french_lexicon_def)
  let ?c = "map (\<lambda>n. (py_str n, spelled n)) [20..69]"
  let ?e = "map (\<lambda>n. (py_str n, spelled n)) [80..99]"
  let ?h = "map (\<lambda>n. (py_str n, spelled n)) [100..999]"
  let ?lex = "build_units_fst @ build_teens_fst @ ?c @ build_70_79_dynamic @ ?e @ ?h
              @ build_thousand_fst"
  have lex: "?lex = french_lexicon"
    by (rule lexicon_parts)
  show ?thesis
  proof (intro exI conjI)
    show "build_compound_20_69_dynamic = Inr ?c" by (rule compound_eq)
    show "build_80_99_dynamic = Inr ?e" by (rule eighty_eq)
    show "build_hundreds_dynamic = Inr ?h" by (rule hundreds_eq)
    show "?lex = ?lex" by (rule refl)
    show "build_french_cardinal_fst = Inr ?lex" unfolding lex by (rule lexicon_eq)
    show "length ?lex = 1001" unfolding lex by (rule len)
    show "map fst ?lex = map py_str [0..1000]" unfolding lex by (rule keys)
    show "distinct (map fst ?lex)" unfolding lex by (rule d)
  qed
qed

text \<open>
  C2. For every integer n of [0,1000], normalize\_number of a fresh normalizer (whatever
  its counters) on str(n) returns the output that the transducer pairs with str(n); this
  string is not empty, differs from str(n) and does not start with the error marker.
\<close>

theorem totality_over_range:
  assumes "0 \<le> n" "n \<le> 1000"
  shows "\<exists>N. FrenchNormalizer_init = Inr N \<and>
           (\<forall>st. map_of (self_fst N) (py_str n)
                   = Some (fst (normalize_number R (N\<lparr>self_stats := st\<rparr>) (py_str n))) \<and>
                 fst (normalize_number R (N\<lparr>self_stats := st\<rparr>) (py_str n)) \<noteq> [] \<and>
                 fst (normalize_number R (N\<lparr>self_stats := st\<rparr>) (py_str n)) \<noteq> py_str n \<and>
                 \<not> prefix (ascii ''Error'') (fst (normalize_number R (N\<lparr>self_stats := st\<rparr>) (py_str n))))"
proof -
  let ?N = "\<lparr>self_fst = french_lexicon, self_stats = \<lparr>normalized = 0, errors = 0\<rparr>\<rparr>"
  have r: "fst (normalize_number R (?N\<lparr>self_stats := st\<rparr>) (py_str n)) = spelled n" for st
    using normalize_number_in_range [OF py_int_py_str [OF assms] assms] by simp
  from spelled_head [OF assms] obtain c cs where sp: "spelled n = c # cs" and c: "97 \<le> c" "c \<le> 122"
    by (cases "spelled n") auto
  have ne: "spelled n \<noteq> py_str n"
  proof
    assume "spelled n = py_str n"
    with sp have "hd (py_str n) = c" by simp
    moreover have "hd (py_str n) \<le> 57"
      using assms hd_digits [of "nat n"] by (simp add: py_str_def)
    ultimately show False using c by simp
  qed
  have np: "\<not> prefix (ascii ''Error'') (spelled n)"
    using c by (auto simp: sp ascii_def)
  have look: "map_of french_lexicon (py_str n) = Some (spelled n)"
    using assms by (simp add: lookup_lexicon)
  show ?thesis
    unfolding init_eq using r ne np look sp by simp
qed

theorem totality_over_range_witness:
  "\<forall>R. (0::int) \<le> 42 \<and> (42::int) \<le> 1000 \<and>
     (\<exists>N. FrenchNormalizer_init = Inr N \<and>
        fst (normalize_number R N (ascii ''42'')) = ascii ''quarante-deux'' \<and>
        map_of (self_fst N) (ascii ''42'') = Some (ascii ''quarante-deux''))"
proof
  fix R
  have s: "py_str 42 = ascii ''42''"
    by (simp add: num_defs ascii_def)
  have v: "spelled 42 = ascii ''quarante-deux''"
    by (simp add: spell_defs)
  from totality_over_range [of 42 R]
  obtain N where N: "FrenchNormalizer_init = Inr N"
    and l: "\<forall>st. map_of (self_fst N) (py_str 42)
                 = Some (fst (normalize_number R (N\<lparr>self_stats := st\<rparr>) (py_str 42)))"
    by auto
  from l have l': "map_of (self_fst N) (py_str 42) = Some (fst (normalize_number R N (py_str 42)))"
    by (simp add: normalize_number_stats)
  from N have "self_fst N = french_lexicon"
    by (auto simp: init_eq)
  with l' have r: "fst (normalize_number R N (py_str 42)) = spelled 42"
    by (simp add: lookup_lexicon)
  from N l' r have "FrenchNormalizer_init = Inr N \<and>
        fst (normalize_number R N (ascii ''42'')) = ascii ''quarante-deux'' \<and>
        map_of (self_fst N) (ascii ''42'') = Some (ascii ''quarante-deux'')"
    by (simp add: s v)
  then have "\<exists>N. FrenchNormalizer_init = Inr N \<and>
        fst (normalize_number R N (ascii ''42'')) = ascii ''quarante-deux'' \<and>
        map_of (self_fst N) (ascii ''42'') = Some (ascii ''quarante-deux'')"
    by blast
  then show "(0::int) \<le> 42 \<and> (42::int) \<le> 1000 \<and>
     (\<exists>N. FrenchNormalizer_init = Inr N \<and>
        fst (normalize_number R N (ascii ''42'')) = ascii ''quarante-deux'' \<and>
        map_of (self_fst N) (ascii ''42'') = Some (ascii ''quarante-deux''))"
    by simp
qed

text \<open>
  C3. When int(s) raises, or gives an integer outside [0,1000], normalize\_number returns s
  unchanged, whatever the normalizer; the function has a result on every string (every
  exception of its body is caught by its handler, which the model writes out).
\<close>

theorem range_pass_through:
  "py_int R s = None \<or> (\<exists>n. py_int R s = Some n \<and> (n < 0 \<or> 1000 < n)) \<Longrightarrow>
   fst (normalize_number R self s) = s"
  by (auto simp: normalize_number_def)

theorem range_pass_through_witness:
  "\<forall>R self.
     py_int R (ascii ''1001'') = Some 1001 \<and>
     fst (normalize_number R self (ascii ''1001'')) = ascii ''1001'' \<and>
     py_int R (ascii ''-1'') = Some (- 1) \<and>
     fst (normalize_number R self (ascii ''-1'')) = ascii ''-1'' \<and>
     py_int R (ascii ''abc'') = None \<and>
     fst (normalize_number R self (ascii ''abc'')) = ascii ''abc''"
proof (intro allI)
  fix R self
  have a: "py_int R (ascii ''1001'') = Some 1001"
    and b: "py_int R (ascii ''-1'') = Some (- 1)"
    and c: "py_int R (ascii ''abc'') = None"
    by (simp_all add: int_defs ascii_def)
  show "py_int R (ascii ''1001'') = Some 1001 \<and>
     fst (normalize_number R self (ascii ''1001'')) = ascii ''1001'' \<and>
     py_int R (ascii ''-1'') = Some (- 1) \<and>
     fst (normalize_number R self (ascii ''-1'')) = ascii ''-1'' \<and>
     py_int R (ascii ''abc'') = None \<and>
     fst (normalize_number R self (ascii ''abc'')) = ascii ''abc''"
    using a b c range_pass_through [of R "ascii ''1001''" self]
      range_pass_through [of R "ascii ''-1''" self] range_pass_through [of R "ascii ''abc''" self]
    by simp
qed

text \<open>
  C9. When int(s) gives an integer n of [0,1000], normalize\_number of a fresh normalizer
  (whatever its counters) looks up str(n), not s: its result on s is its result on str(n),
  the spelled form of n, and is never s itself. So "007" gives "sept", and "+21" and " 21 "
  give "vingt et un".
\<close>

theorem canonical_before_lookup:
  assumes "py_int R s = Some n" "0 \<le> n" "n \<le> 1000"
  shows "\<exists>N. FrenchNormalizer_init = Inr N \<and>
           (\<forall>st. fst (normalize_number R (N\<lparr>self_stats := st\<rparr>) s)
                   = apply_fst R (py_str n) (self_fst N) \<and>
                 fst (normalize_number R (N\<lparr>self_stats := st\<rparr>) s)
                   = fst (normalize_number R N (py_str n)) \<and>
                 map_of (self_fst N) (py_str n)
                   = Some (fst (normalize_number R (N\<lparr>self_stats := st\<rparr>) s)) \<and>
                 fst (normalize_number R (N\<lparr>self_stats := st\<rparr>) s) \<noteq> s)"
proof -
  let ?N = "\<lparr>self_fst = french_lexicon, self_stats = \<lparr>normalized = 0, errors = 0\<rparr>\<rparr>"
  have r: "fst (normalize_number R (?N\<lparr>self_stats := st\<rparr>) s) = spelled n" for st
    using normalize_number_in_range [OF assms] by simp
  have r': "fst (normalize_number R ?N (py_str n)) = spelled n"
    using normalize_number_in_range [OF py_int_py_str [OF assms(2,3)] assms(2,3)] by simp
  from spelled_head [OF assms(2,3)] obtain c cs where sp: "spelled n = c # cs"
    and c: "97 \<le> c" "c \<le> 122"
    by (cases "spelled n") auto
  have ne: "spelled n \<noteq> s"
  proof
    assume "spelled n = s"
    with sp py_int_letter_head [OF c, of R cs] assms(1) show False by simp
  qed
  show ?thesis
    unfolding init_eq using r r' ne assms(2,3)
    by (simp add: apply_fst_lexicon lookup_lexicon)
qed

theorem canonical_before_lookup_witness:
  "\<forall>R. \<exists>N. FrenchNormalizer_init = Inr N \<and>
     py_int R (ascii ''007'') = Some 7 \<and>
     fst (normalize_number R N (ascii ''007'')) = ascii ''sept'' \<and>
     py_int R (ascii ''+21'') = Some 21 \<and>
     fst (normalize_number R N (ascii ''+21'')) = ascii ''vingt et un'' \<and>
     py_int R (ascii '' 21 '') = Some 21 \<and>
     fst (normalize_number R N (ascii '' 21 '')) = ascii ''vingt et un''"
proof
  fix R
  let ?N = "\<lparr>self_fst = french_lexicon, self_stats = \<lparr>normalized = 0, errors = 0\<rparr>\<rparr>"
  have a: "py_int R (ascii ''007'') = Some 7"
    and b: "py_int R (ascii ''+21'') = Some 21"
    and c: "py_int R (ascii '' 21 '') = Some 21"
    by (simp_all add: int_defs ascii_def)
  have v: "spelled 7 = ascii ''sept''" "spelled 21 = ascii ''vingt et un''"
    by (simp_all add: spell_defs)
  have look: "apply_fst R (py_str 7) french_lexicon = spelled 7"
    "apply_fst R (py_str 21) french_lexicon = spelled 21"
    by (simp_all add: apply_fst_lexicon)
  have "fst (normalize_number R ?N (ascii ''007'')) = ascii ''sept''"
    using canonical_before_lookup [OF a] look v
    by (simp add: init_eq normalize_number_stats)
  moreover have "fst (normalize_number R ?N (ascii ''+21'')) = ascii ''vingt et un''"
    using canonical_before_lookup [OF b] look v
    by (simp add: init_eq normalize_number_stats)
  moreover have "fst (normalize_number R ?N (ascii '' 21 '')) = ascii ''vingt et un''"
    using canonical_before_lookup [OF c] look v
    by (simp add: init_eq normalize_number_stats)
  ultimately show "\<exists>N. FrenchNormalizer_init = Inr N \<and>
     py_int R (ascii ''007'') = Some 7 \<and>
     fst (normalize_number R N (ascii ''007'')) = ascii ''sept'' \<and>
     py_int R (ascii ''+21'') = Some 21 \<and>
     fst (normalize_number R N (ascii ''+21'')) = ascii ''vingt et un'' \<and>
     py_int R (ascii '' 21 '') = Some 21 \<and>
     fst (normalize_number R N (ascii '' 21 '')) = ascii ''vingt et un''"
    using a b c by (simp add: init_eq)
qed

subsection \<open>The text pipeline\<close>

lemmas char_defs = isdecimal_def todecimal_def isdigit_def isdigit_char_def is_letter_def
  isword_def isalnum_char_def isspace_def

lemmas tag_defs = cardinal_open_def word_open_def tag_close_def match_tag_def
  is_closing_punct_def strip_with_def

lemma classify_digits:
  assumes "0 \<le> n" "n \<le> 1000" "isdigit R (py_str n)"
  shows "classify_token R (py_str n) french_lexicon = cardinal_open @ spelled n @ tag_close"
  using assms by (simp add: classify_token_def apply_fst_lexicon)

text \<open>
  C8. The two scenarios of the text pipeline: normalize("J'ai 3 chiens et 21 chats") is
  "J'ai trois chiens et vingt et un chats", and normalize("bonjour le monde") is
  "bonjour le monde".
\<close>

theorem end_to_end_scenarios:
  "normalize R (ascii ''J'ai 3 chiens et 21 chats'')
     = Inr (ascii ''J'ai trois chiens et vingt et un chats'') \<and>
   normalize R (ascii ''bonjour le monde'') = Inr (ascii ''bonjour le monde'')"
proof -
  let ?f = french_lexicon
  have tok1: "tokenize_text R (ascii ''J'ai 3 chiens et 21 chats'') =
    [ascii ''J'ai'', ascii '' '', ascii ''3'', ascii '' '', ascii ''chiens'', ascii '' '',
     ascii ''et'', ascii '' '', ascii ''21'', ascii '' '', ascii ''chats'']"
    by (simp add: ascii_def char_defs)
  have tok2: "tokenize_text R (ascii ''bonjour le monde'') =
    [ascii ''bonjour'', ascii '' '', ascii ''le'', ascii '' '', ascii ''monde'']"
    by (simp add: ascii_def char_defs)
  have n: "py_str 3 = ascii ''3''" "py_str 21 = ascii ''21''"
    by (simp_all add: num_defs ascii_def)
  have v: "spelled 3 = ascii ''trois''" "spelled 21 = ascii ''vingt et un''"
    by (simp_all add: spell_defs)
  have d: "isdigit R (ascii ''3'')" "isdigit R (ascii ''21'')"
    by (simp_all add: ascii_def char_defs)
  have c3: "classify_token R (ascii ''3'') ?f = cardinal_open @ ascii ''trois'' @ tag_close"
    using classify_digits [of 3 R] d by (simp add: n v)
  have c21: "classify_token R (ascii ''21'') ?f = cardinal_open @ ascii ''vingt et un'' @ tag_close"
    using classify_digits [of 21 R] d by (simp add: n v)
  have w: "classify_token R (ascii ''J'ai'') ?f = word_open @ ascii ''J'ai'' @ tag_close"
    "classify_token R (ascii '' '') ?f = word_open @ ascii '' '' @ tag_close"
    "classify_token R (ascii ''chiens'') ?f = word_open @ ascii ''chiens'' @ tag_close"
    "classify_token R (ascii ''et'') ?f = word_open @ ascii ''et'' @ tag_close"
    "classify_token R (ascii ''chats'') ?f = word_open @ ascii ''chats'' @ tag_close"
    "classify_token R (ascii ''bonjour'') ?f = word_open @ ascii ''bonjour'' @ tag_close"
    "classify_token R (ascii ''le'') ?f = word_open @ ascii ''le'' @ tag_close"
    "classify_token R (ascii ''monde'') ?f = word_open @ ascii ''monde'' @ tag_close"
    by (simp_all add: classify_token_def ascii_def char_defs)
  have t1: "strip_tags R (classify_sentence R (ascii ''J'ai 3 chiens et 21 chats'') ?f)
            = ascii ''J'ai trois chiens et vingt et un chats''"
    unfolding classify_sentence_def Let_def tok1 list.map c3 c21 w
    by (simp add: strip_tags_def tag_defs ascii_def isspace_def)
  have t2: "strip_tags R (classify_sentence R (ascii ''bonjour le monde'') ?f)
            = ascii ''bonjour le monde''"
    unfolding classify_sentence_def Let_def tok2 list.map w
    by (simp add: strip_tags_def tag_defs ascii_def isspace_def)
  show ?thesis
    by (simp add: normalize_def init_eq normalize_text_def t1 t2)
qed

subsection \<open>A token outside the lexicon in normalize\_text\<close>

lemma strip_prefix_append: "strip_prefix p (p @ t) = Some t"
  by (induction p) simp_all

lemma strip_prefix_SomeD: "strip_prefix p t = Some r \<Longrightarrow> t = p @ r"
  by (induction p t rule: strip_prefix.induct) (auto split: if_splits)

lemma match_tag_SomeD:
  assumes "match_tag opening t = Some (g, rest)"
  shows "\<exists>t1. strip_prefix opening t = Some t1 \<and> g = takeWhile (\<lambda>c. c \<noteq> 34) t1 \<and> g \<noteq> [] \<and>
              strip_prefix tag_close (dropWhile (\<lambda>c. c \<noteq> 34) t1) = Some rest"
  using assms by (auto simp: match_tag_def Let_def split: option.splits if_splits)

lemma after_tags_head:
  assumes "\<not> isspace R c"
  shows "\<exists>t. strip_with (isspace R) (sub_space_punct R (sub_spaces R (c # cs))) = c # t"
  using assms strip_with_head [of "isspace R" c] by simp

lemma classify_unknown_digits:
  "classify_sentence R (ascii ''2025'') french_lexicon =
     cardinal_open @ (ascii ''Error: '' @ fst_error R (ascii ''2025'') @ ascii '', for input:''
       @ [39] @ ascii ''2025'' @ [39]) @ tag_close"
proof -
  have tok: "tokenize_text R (ascii ''2025'') = [ascii ''2025'']"
    by (simp add: ascii_def char_defs)
  have d: "isdigit R (ascii ''2025'')"
    by (simp add: ascii_def char_defs)
  have "py_str 2025 = ascii ''2025''"
    by (simp add: num_defs ascii_def)
  with lookup_lexicon [of 2025] have "map_of french_lexicon (ascii ''2025'') = None"
    by simp
  with tok d show ?thesis
    by (simp add: classify_sentence_def classify_token_def apply_fst_def)
qed

lemma strip_tags_error_head:
  "\<exists>t. strip_tags R (cardinal_open @ 69 # b) = 69 # t
     \<or> strip_tags R (cardinal_open @ 69 # b) = 123 # t"
proof -
  let ?text = "cardinal_open @ 69 # b"
  have shape: "?text = 123 # 32 # 99 # drop 3 ?text"
    by (simp add: cardinal_open_def ascii_def)
  have sp: "\<not> isspace R 69" "\<not> isspace R 123"
    by (simp_all add: isspace_def)
  have nw: "match_tag word_open (69 # x) = None" "match_tag word_open (123 # 32 # 99 # x) = None" for x
    by (simp_all add: match_tag_def word_open_def ascii_def)
  have "\<exists>x. sub_tag cardinal_open ?text = 69 # x \<or> sub_tag cardinal_open ?text = 123 # 32 # 99 # x"
  proof (cases "match_tag cardinal_open ?text")
    case None
    have n1: "match_tag cardinal_open (32 # x) = None" "match_tag cardinal_open (99 # x) = None" for x
      by (simp_all add: match_tag_def cardinal_open_def ascii_def)
    from None have "match_tag cardinal_open (123 # 32 # 99 # drop 3 ?text) = None"
      using shape by simp
    then have "sub_tag cardinal_open (123 # 32 # 99 # drop 3 ?text)
          = 123 # 32 # 99 # sub_tag cardinal_open (drop 3 ?text)"
      using n1 by simp
    then show ?thesis
      using shape by auto
  next
    case (Some a)
    obtain g rest where a: "a = (g, rest)" by (cases a)
    from match_tag_SomeD [OF Some [unfolded a]]
    obtain t1 where t1: "strip_prefix cardinal_open ?text = Some t1"
      and g: "g = takeWhile (\<lambda>c. c \<noteq> 34) t1" "g \<noteq> []"
      by blast
    from t1 have "t1 = 69 # b"
      by (simp add: strip_prefix_append)
    with g obtain g' where "g = 69 # g'"
      by auto
    moreover from Some a have "match_tag cardinal_open (123 # 32 # 99 # drop 3 ?text) = Some (g, rest)"
      using shape by simp
    then have "sub_tag cardinal_open (123 # 32 # 99 # drop 3 ?text) = g @ sub_tag cardinal_open rest"
      by simp
    then have "sub_tag cardinal_open ?text = g @ sub_tag cardinal_open rest"
      using shape by simp
    ultimately show ?thesis by auto
  qed
  then obtain x where "sub_tag cardinal_open ?text = 69 # x
      \<or> sub_tag cardinal_open ?text = 123 # 32 # 99 # x"
    by blast
  then have "\<exists>y. sub_tag word_open (sub_tag cardinal_open ?text) = 69 # y
      \<or> sub_tag word_open (sub_tag cardinal_open ?text) = 123 # y"
    using nw by auto
  then show ?thesis
    unfolding strip_tags_def using after_tags_head [OF sp(1)] after_tags_head [OF sp(2)]
    by metis
qed

text \<open>
  C1, at the digit token "2025". The transducer has no path for "2025"; classify\_token
  tags the message text that apply\_fst returns, and whatever that message is, normalize
  does not return "2025": its result starts with the "E" of "Error: " or with the opening
  brace of the tag. normalize\_number on the same string passes it through. With the
  message "Operation failed", for instance, the result is
  "Error: Operation failed, for input:'2025'".
\<close>

theorem unknown_digit_token_not_passed_through:
  "(\<exists>N. FrenchNormalizer_init = Inr N \<and>
      classify_sentence R (ascii ''2025'') (self_fst N) =
        cardinal_open @ (ascii ''Error: '' @ fst_error R (ascii ''2025'') @ ascii '', for input:''
          @ [39] @ ascii ''2025'' @ [39]) @ tag_close \<and>
      fst (normalize_number R N (ascii ''2025'')) = ascii ''2025'') \<and>
   normalize R (ascii ''2025'') \<noteq> Inr (ascii ''2025'') \<and>
   normalize (R\<lparr>fst_error := \<lambda>text. ascii ''Operation failed''\<rparr>) (ascii ''2025'')
     = Inr (ascii ''Error: Operation failed, for input:'' @ [39] @ ascii ''2025'' @ [39])"
proof -
  have a: "normalize R (ascii ''2025'') \<noteq> Inr (ascii ''2025'')"
  proof -
    have "classify_sentence R (ascii ''2025'') french_lexicon =
        cardinal_open @ 69 # (ascii ''rror: '' @ fst_error R (ascii ''2025'') @ ascii '', for input:''
          @ [39] @ ascii ''2025'' @ [39]) @ tag_close"
      unfolding classify_unknown_digits by (simp add: ascii_def)
    with strip_tags_error_head [of R]
    obtain t where "strip_tags R (classify_sentence R (ascii ''2025'') french_lexicon) = 69 # t
        \<or> strip_tags R (classify_sentence R (ascii ''2025'') french_lexicon) = 123 # t"
      by metis
    then show ?thesis
      by (auto simp: normalize_def init_eq normalize_text_def ascii_def)
  qed
  let ?R = "R\<lparr>fst_error := \<lambda>text. ascii ''Operation failed''\<rparr>"
  have e: "strip_tags ?R (classify_sentence ?R (ascii ''2025'') french_lexicon)
     = ascii ''Error: Operation failed, for input:'' @ [39] @ ascii ''2025'' @ [39]"
    unfolding classify_unknown_digits
    by (simp add: strip_tags_def tag_defs ascii_def isspace_def)
  have b: "normalize ?R (ascii ''2025'')
     = Inr (ascii ''Error: Operation failed, for input:'' @ [39] @ ascii ''2025'' @ [39])"
    by (simp add: normalize_def init_eq normalize_text_def e)
  have "py_int R (ascii ''2025'') = Some 2025"
    by (simp add: int_defs ascii_def)
  then have c: "fst (normalize_number R N (ascii ''2025'')) = ascii ''2025''" for N
    by (simp add: normalize_number_def)
  show ?thesis
    using classify_unknown_digits a b c by (simp add: init_eq)
qed

subsection \<open>A double quote in the text\<close>

lemma in_dropWhile: "x \<in> set xs \<Longrightarrow> \<not> P x \<Longrightarrow> x \<in> set (dropWhile P xs)"
  by (induction xs) auto

lemma quote_classes:
  "\<not> isdecimal R 34" "\<not> is_letter 34" "\<not> isword R 34" "\<not> isspace R 34"
  "\<not> isdigit R [34]"
  by (simp_all add: char_defs)

lemma quote_word_tail: "34 \<in> set t \<Longrightarrow> 34 \<in> set (snd (word_tail t))"
proof (induction t rule: word_tail.induct)
  case (3 c d cs)
  show ?case
  proof (cases "c = 39 \<and> is_letter d")
    case True
    with 3(2) quote_classes(2) have "34 \<in> set cs" by auto
    then have "34 \<in> set (dropWhile is_letter cs)"
      using quote_classes(2) by (rule in_dropWhile)
    with 3(1) True show ?thesis by (simp add: Let_def)
  next
    case False
    with 3(2) show ?thesis by auto
  qed
qed simp_all

lemma quote_token: "34 \<in> set t \<Longrightarrow> [34] \<in> set (tokenize_text R t)"
proof (induction R t rule: tokenize_text.induct)
  case (1 R)
  then show ?case by simp
next
  case (2 R c cs)
  note q = quote_classes
  show ?case
  proof (cases "c = 34")
    case True
    with q show ?thesis by simp
  next
    case False
    with 2(6) have cs: "34 \<in> set cs" by simp
    consider (dec) "isdecimal R c"
      | (letter) "\<not> isdecimal R c" "is_letter c"
      | (pun) "\<not> isdecimal R c" "\<not> is_letter c" "\<not> isword R c \<and> \<not> isspace R c"
      | (spa) "\<not> isdecimal R c" "\<not> is_letter c" "\<not> (\<not> isword R c \<and> \<not> isspace R c)" "isspace R c"
      | (skip) "\<not> isdecimal R c" "\<not> is_letter c" "\<not> (\<not> isword R c \<and> \<not> isspace R c)" "\<not> isspace R c"
      by blast
    then show ?thesis
    proof cases
      case dec
      from cs have "34 \<in> set (dropWhile (isdecimal R) cs)"
        using q(1) by (rule in_dropWhile)
      with 2(1) dec show ?thesis by simp
    next
      case letter
      from cs have "34 \<in> set (dropWhile is_letter cs)"
        using q(2) by (rule in_dropWhile)
      then have "34 \<in> set (snd (word_tail (dropWhile is_letter cs)))"
        by (rule quote_word_tail)
      with 2(2) letter show ?thesis by (simp add: Let_def)
    next
      case pun
      with 2(3) cs show ?thesis by simp
    next
      case spa
      with 2(4) cs show ?thesis by simp
    next
      case skip
      with 2(5) cs show ?thesis by simp
    qed
  qed
qed

lemma classify_quote: "classify_token R [34] f = quote_tag"
  by (simp add: classify_token_def quote_classes quote_tag_def)

lemma join_sublist: "x \<in> set xs \<Longrightarrow> sublist x (join sep xs)"
proof (induction sep xs rule: join.induct)
  case (3 sep y z zs)
  show ?case
  proof (cases "x = y")
    case True
    then show ?thesis by (simp add: sublist_def) (metis append_Nil)
  next
    case False
    with 3 have "sublist x (join sep (z # zs))" by simp
    then obtain ps ss where "join sep (z # zs) = ps @ x @ ss"
      by (auto simp: sublist_def)
    then have "join sep (y # z # zs) = (y @ sep @ ps) @ x @ ss" by simp
    then show ?thesis unfolding sublist_def by blast
  qed
qed (simp_all add: sublist_def)

lemma tagged_has_quote_tag:
  "34 \<in> set t \<Longrightarrow> sublist quote_tag (classify_sentence R t f)"
proof -
  assume "34 \<in> set t"
  then have "[34] \<in> set (tokenize_text R t)" by (rule quote_token)
  then have "classify_token R [34] f
      \<in> (\<lambda>token. classify_token R token f) ` set (tokenize_text R t)"
    by (intro image_eqI [where x = "[34]"]) simp_all
  then have "classify_token R [34] f
      \<in> set (map (\<lambda>token. classify_token R token f) (tokenize_text R t))"
    by simp
  then show ?thesis
    unfolding classify_sentence_def Let_def classify_quote by (rule join_sublist)
qed

lemma first_occurrence_unique:
  "x \<notin> set xs \<Longrightarrow> x \<notin> set xs' \<Longrightarrow> xs @ x # ys = xs' @ x # ys' \<Longrightarrow> xs = xs' \<and> ys = ys'"
proof (induction xs arbitrary: xs')
  case Nil
  then show ?case by (cases xs') auto
next
  case (Cons a xs)
  then show ?case by (cases xs') auto
qed

lemma quote_tag_shape:
  "quote_tag = ascii ''{ word { value: '' @ 34 # 34 # 34 # ascii '' } }''"
  "34 \<notin> set (ascii ''{ word { value: '')"
  "quote_tag \<noteq> []" "hd quote_tag = 123" "last quote_tag = 125"
  by (simp_all add: quote_tag_def word_open_def tag_close_def ascii_def)

lemma opening_shape:
  assumes "opening = cardinal_open \<or> opening = word_open"
  shows "\<exists>p. opening = p @ [34] \<and> 34 \<notin> set p"
  using assms by (auto simp: cardinal_open_def word_open_def ascii_def)

lemma match_before_quote_tag:
  assumes m: "match_tag opening (A @ quote_tag @ B) = Some (g, rest)"
    and op: "opening = cardinal_open \<or> opening = word_open"
  shows "\<exists>A'. rest = A' @ quote_tag @ B \<and> length A' < length A"
proof -
  let ?P = "ascii ''{ word { value: ''"
  let ?S = "ascii '' } }''"
  from match_tag_SomeD [OF m] obtain t1
    where t1: "strip_prefix opening (A @ quote_tag @ B) = Some t1"
      and g: "g = takeWhile (\<lambda>c. c \<noteq> 34) t1" "g \<noteq> []"
      and r: "strip_prefix tag_close (dropWhile (\<lambda>c. c \<noteq> 34) t1) = Some rest"
    by blast
  have gq: "34 \<notin> set g"
    using g(1) by (auto dest: set_takeWhileD)
  have "t1 = g @ dropWhile (\<lambda>c. c \<noteq> 34) t1"
    using g(1) by simp
  also have "dropWhile (\<lambda>c. c \<noteq> 34) t1 = tag_close @ rest"
    using r by (rule strip_prefix_SomeD)
  finally have t1': "t1 = g @ 34 # ?S @ rest"
    by (simp add: tag_close_def)
  from opening_shape [OF op] obtain p where p: "opening = p @ [34]" "34 \<notin> set p"
    by blast
  have "A @ quote_tag @ B = opening @ t1"
    using t1 by (rule strip_prefix_SomeD)
  then have eq: "A @ ?P @ 34 # 34 # 34 # ?S @ B = p @ 34 # g @ 34 # ?S @ rest"
    by (simp add: quote_tag_shape(1) t1' p(1))
  show ?thesis
  proof (cases "34 \<in> set A")
    case False
    then have "34 \<notin> set (A @ ?P)"
      using quote_tag_shape(2) by simp
    with eq p(2) first_occurrence_unique [of 34 "A @ ?P" p "34 # 34 # ?S @ B" "g @ 34 # ?S @ rest"]
    have "34 # 34 # ?S @ B = g @ 34 # ?S @ rest"
      by simp
    with g(2) gq show ?thesis
      by (cases g) auto
  next
    case True
    then obtain A1 A2 where A: "A = A1 @ 34 # A2" "34 \<notin> set A1"
      by (auto dest: split_list_first)
    with eq p(2)
      first_occurrence_unique [of 34 A1 p "A2 @ ?P @ 34 # 34 # 34 # ?S @ B" "g @ 34 # ?S @ rest"]
    have eq2: "A2 @ ?P @ 34 # 34 # 34 # ?S @ B = g @ 34 # ?S @ rest"
      by simp
    show ?thesis
    proof (cases "34 \<in> set A2")
      case False
      then have "34 \<notin> set (A2 @ ?P)"
        using quote_tag_shape(2) by simp
      with eq2 gq first_occurrence_unique [of 34 "A2 @ ?P" g "34 # 34 # ?S @ B" "?S @ rest"]
      have "34 # 34 # ?S @ B = ?S @ rest"
        by simp
      then show ?thesis
        by (simp add: ascii_def)
    next
      case True
      then obtain A3 A4 where A2: "A2 = A3 @ 34 # A4" "34 \<notin> set A3"
        by (auto dest: split_list_first)
      with eq2 gq
        first_occurrence_unique [of 34 A3 g "A4 @ ?P @ 34 # 34 # 34 # ?S @ B" "?S @ rest"]
      have "A4 @ ?P @ 34 # 34 # 34 # ?S @ B = ?S @ rest"
        by simp
      then have eq3: "A4 @ quote_tag @ B = ?S @ rest"
        by (simp add: quote_tag_shape(1))
      then consider us where "A4 = ?S @ us" "us @ quote_tag @ B = rest"
        | us where "A4 @ us = ?S" "quote_tag @ B = us @ rest"
        by (auto simp: append_eq_append_conv2)
      then show ?thesis
      proof cases
        case 1
        then have "rest = us @ quote_tag @ B \<and> length us < length A"
          by (simp add: A(1) A2(1))
        then show ?thesis by blast
      next
        case 2
        show ?thesis
        proof (cases us)
          case Nil
          with 2 have "rest = [] @ quote_tag @ B \<and> length ([]::ustr) < length A"
            by (simp add: A(1) A2(1))
          then show ?thesis by blast
        next
          case (Cons u us')
          with 2(2) have "u = 123"
            by (simp add: quote_tag_shape(1) ascii_def)
          moreover from 2(1) Cons have "u \<in> set ?S"
            by (metis in_set_conv_decomp)
          ultimately show ?thesis
            by (simp add: ascii_def)
        qed
      qed
    qed
  qed
qed

lemma sub_tag_over_quote_tag:
  "sub_tag cardinal_open (quote_tag @ B) = quote_tag @ sub_tag cardinal_open B"
  "sub_tag word_open (quote_tag @ B) = quote_tag @ sub_tag word_open B"
  by (simp_all add: quote_tag_def tag_defs ascii_def)

lemma sub_tag_keeps_quote_tag:
  assumes op: "opening = cardinal_open \<or> opening = word_open"
    and s: "sublist quote_tag t"
  shows "sublist quote_tag (sub_tag opening t)"
proof -
  have "\<exists>A' B'. sub_tag opening (A @ quote_tag @ B) = A' @ quote_tag @ B'" for A B
  proof (induction "length A" arbitrary: A rule: less_induct)
    case less
    show ?case
    proof (cases A)
      case Nil
      with op sub_tag_over_quote_tag [of B] show ?thesis
        by (metis append_Nil)
    next
      case (Cons a A0)
      show ?thesis
      proof (cases "match_tag opening (A @ quote_tag @ B)")
        case None
        then have "sub_tag opening (A @ quote_tag @ B) = a # sub_tag opening (A0 @ quote_tag @ B)"
          by (simp add: Cons)
        moreover from less [of A0] Cons
        obtain A' B' where "sub_tag opening (A0 @ quote_tag @ B) = A' @ quote_tag @ B'"
          by auto
        ultimately have "sub_tag opening (A @ quote_tag @ B) = (a # A') @ quote_tag @ B'"
          by simp
        then show ?thesis by blast
      next
        case (Some m)
        obtain g rest where m: "m = (g, rest)" by (cases m)
        from match_before_quote_tag [OF Some [unfolded m] op]
        obtain A1 where A1: "rest = A1 @ quote_tag @ B" "length A1 < length A"
          by blast
        from less [OF A1(2)]
        obtain A' B' where "sub_tag opening (A1 @ quote_tag @ B) = A' @ quote_tag @ B'"
          by auto
        moreover have "sub_tag opening (A @ quote_tag @ B) = g @ sub_tag opening rest"
          using Some m by (simp add: Cons)
        ultimately have "sub_tag opening (A @ quote_tag @ B) = (g @ A') @ quote_tag @ B'"
          using A1(1) by simp
        then show ?thesis by blast
      qed
    qed
  qed
  with s show ?thesis
    unfolding sublist_def by metis
qed

subsection \<open>White space and the final strip\<close>

lemma dropWhile_before:
  assumes "T \<noteq> []" "\<not> P (hd T)"
  shows "\<exists>X. dropWhile P (A @ T @ Z) = X @ T @ Z \<and> length X \<le> length A"
proof (induction A)
  case Nil
  from assms have "dropWhile P (T @ Z) = T @ Z"
    by (cases T) simp_all
  then show ?case by simp
next
  case (Cons a A)
  then obtain X where X: "dropWhile P (A @ T @ Z) = X @ T @ Z" "length X \<le> length A"
    by blast
  show ?case
  proof (cases "P a")
    case True
    with X show ?thesis by auto
  next
    case False
    then have "dropWhile P ((a # A) @ T @ Z) = (a # A) @ T @ Z" by simp
    then show ?thesis by blast
  qed
qed

lemma quote_tag_ends:
  "\<not> isspace R (hd quote_tag)" "\<not> isspace R (hd (rev quote_tag))"
  by (simp_all add: quote_tag_shape(4) quote_tag_shape(5) hd_rev isspace_def)

lemma dropWhile_space_before_tag:
  "\<exists>X. dropWhile (isspace R) (A @ quote_tag @ Z) = X @ quote_tag @ Z \<and> length X \<le> length A"
  using dropWhile_before [where P = "isspace R" and T = quote_tag and A = A and Z = Z]
    quote_tag_shape(3) quote_tag_ends(1) [of R]
  by blast

lemma dropWhile_space_before_rev_tag:
  "\<exists>X. dropWhile (isspace R) (A @ rev quote_tag @ Z) = X @ rev quote_tag @ Z"
  using dropWhile_before [where P = "isspace R" and T = "rev quote_tag" and A = A and Z = Z]
    quote_tag_shape(3) quote_tag_ends(2) [of R]
  by auto

lemma sub_spaces_over_quote_tag:
  "sub_spaces R (quote_tag @ B) = quote_tag @ sub_spaces R B"
  by (simp add: quote_tag_def tag_defs ascii_def isspace_def)

lemma sub_spaces_keeps_quote_tag:
  assumes "sublist quote_tag t"
  shows "sublist quote_tag (sub_spaces R t)"
proof -
  have "\<exists>A' B'. sub_spaces R (A @ quote_tag @ B) = A' @ quote_tag @ B'" for A B
  proof (induction "length A" arbitrary: A rule: less_induct)
    case less
    show ?case
    proof (cases A)
      case Nil
      then show ?thesis
        using sub_spaces_over_quote_tag [of R B] by (metis append_Nil)
    next
      case (Cons a A0)
      show ?thesis
      proof (cases "isspace R a")
        case True
        from dropWhile_space_before_tag [of R A0 B]
        obtain X where X: "dropWhile (isspace R) (A0 @ quote_tag @ B) = X @ quote_tag @ B"
          "length X \<le> length A0"
          by blast
        then have "length X < length A" by (simp add: Cons)
        from less [OF this]
        obtain A' B' where "sub_spaces R (X @ quote_tag @ B) = A' @ quote_tag @ B'"
          by auto
        with True X(1) have "sub_spaces R (A @ quote_tag @ B) = (32 # A') @ quote_tag @ B'"
          by (simp add: Cons)
        then show ?thesis by blast
      next
        case False
        from less [of A0] Cons
        obtain A' B' where "sub_spaces R (A0 @ quote_tag @ B) = A' @ quote_tag @ B'"
          by auto
        with False have "sub_spaces R (A @ quote_tag @ B) = (a # A') @ quote_tag @ B'"
          by (simp add: Cons)
        then show ?thesis by blast
      qed
    qed
  qed
  with assms show ?thesis
    unfolding sublist_def by metis
qed

lemma sub_space_punct_over_quote_tag:
  "sub_space_punct R (quote_tag @ B) = quote_tag @ sub_space_punct R B"
  by (simp add: quote_tag_def tag_defs ascii_def isspace_def)

lemma sub_space_punct_keeps_quote_tag:
  assumes "sublist quote_tag t"
  shows "sublist quote_tag (sub_space_punct R t)"
proof -
  have "\<exists>A' B'. sub_space_punct R (A @ quote_tag @ B) = A' @ quote_tag @ B'" for A B
  proof (induction "length A" arbitrary: A rule: less_induct)
    case less
    show ?case
    proof (cases A)
      case Nil
      then show ?thesis
        using sub_space_punct_over_quote_tag [of R B] by (metis append_Nil)
    next
      case (Cons a A0)
      from less [of A0] Cons
      obtain A' B' where keep: "sub_space_punct R (A0 @ quote_tag @ B) = A' @ quote_tag @ B'"
        by auto
      then have kept: "a # sub_space_punct R (A0 @ quote_tag @ B) = (a # A') @ quote_tag @ B'"
        by simp
      show ?thesis
      proof (cases "isspace R a")
        case False
        with kept have "sub_space_punct R (A @ quote_tag @ B) = (a # A') @ quote_tag @ B'"
          by (simp add: Cons)
        then show ?thesis by blast
      next
        case True
        from dropWhile_space_before_tag [of R A0 B]
        obtain X where X: "dropWhile (isspace R) (A0 @ quote_tag @ B) = X @ quote_tag @ B"
          "length X \<le> length A0"
          by blast
        show ?thesis
        proof (cases X)
          case Nil
          obtain q where "quote_tag @ B = 123 # q"
            by (simp add: quote_tag_shape(1) ascii_def)
          with X(1) Nil have d: "dropWhile (isspace R) (A0 @ quote_tag @ B) = 123 # q"
            by simp
          have "\<not> is_closing_punct 123"
            by (simp add: is_closing_punct_def ascii_def)
          with True d kept have "sub_space_punct R (A @ quote_tag @ B) = (a # A') @ quote_tag @ B'"
            by (simp add: Cons)
          then show ?thesis by blast
        next
          case (Cons p X0)
          note X' = this
          show ?thesis
          proof (cases "is_closing_punct p")
            case False
            with True X(1) X' kept
            have "sub_space_punct R (A @ quote_tag @ B) = (a # A') @ quote_tag @ B'"
              by (simp add: \<open>A = a # A0\<close>)
            then show ?thesis by blast
          next
            case p: True
            have "length X0 < length A"
              using X(2) X' by (simp add: \<open>A = a # A0\<close>)
            from less [OF this]
            obtain A'' B'' where "sub_space_punct R (X0 @ quote_tag @ B) = A'' @ quote_tag @ B''"
              by auto
            with True p X(1) X'
            have "sub_space_punct R (A @ quote_tag @ B) = (p # A'') @ quote_tag @ B''"
              by (simp add: \<open>A = a # A0\<close>)
            then show ?thesis by blast
          qed
        qed
      qed
    qed
  qed
  with assms show ?thesis
    unfolding sublist_def by metis
qed

lemma strip_keeps_quote_tag:
  assumes "sublist quote_tag t"
  shows "sublist quote_tag (strip_with (isspace R) t)"
proof -
  from assms obtain A B where t: "t = A @ quote_tag @ B"
    unfolding sublist_def by blast
  from dropWhile_space_before_tag [of R A B]
  obtain X where X: "dropWhile (isspace R) t = X @ quote_tag @ B"
    unfolding t by blast
  from dropWhile_space_before_rev_tag [of R "rev B" "rev X"]
  obtain Y where "dropWhile (isspace R) (rev B @ rev quote_tag @ rev X)
      = Y @ rev quote_tag @ rev X"
    by blast
  then have "strip_with (isspace R) t = X @ quote_tag @ rev Y"
    by (simp add: strip_with_def X)
  then show ?thesis
    unfolding sublist_def by blast
qed

lemma strip_tags_keeps_quote_tag:
  "sublist quote_tag t \<Longrightarrow> sublist quote_tag (strip_tags R t)"
  unfolding strip_tags_def
  by (intro strip_keeps_quote_tag sub_space_punct_keeps_quote_tag sub_spaces_keeps_quote_tag
      sub_tag_keeps_quote_tag) simp_all

text \<open>
  C10. The word tag that classify\_token builds for the token of one double quote is not
  matched by the word pattern of strip\_tags, and for every text that contains a double
  quote the output of normalize contains that tag, opening and closing text included. So
  there are texts without digits that are not returned unchanged: the text of the single
  double quote gives the 23 characters of its tag.
\<close>

theorem double_quote_keeps_word_tag:
  "classify_token R [34] f = word_open @ [34] @ tag_close \<and>
   match_tag word_open (classify_token R [34] f) = None \<and>
   (34 \<in> set t \<longrightarrow>
      (\<exists>out. normalize R t = Inr out \<and> sublist (word_open @ [34] @ tag_close) out))"
proof -
  have a: "classify_token R [34] f = word_open @ [34] @ tag_close"
    using classify_quote [of R f] by (simp add: quote_tag_def)
  have b: "match_tag word_open (classify_token R [34] f) = None"
    unfolding a by (simp add: tag_defs ascii_def)
  have c: "\<exists>out. normalize R t = Inr out \<and> sublist (word_open @ [34] @ tag_close) out"
    if "34 \<in> set t"
  proof -
    from that have "sublist quote_tag (classify_sentence R t french_lexicon)"
      by (rule tagged_has_quote_tag)
    then have "sublist quote_tag (strip_tags R (classify_sentence R t french_lexicon))"
      by (rule strip_tags_keeps_quote_tag)
    then show ?thesis
      by (simp add: normalize_def init_eq normalize_text_def quote_tag_def)
  qed
  from a b c show ?thesis by blast
qed

theorem double_quote_keeps_word_tag_witness:
  "\<forall>R. 34 \<in> set [34::nat] \<and> \<not> isdigit R [34] \<and>
     (\<exists>out. normalize R [34] = Inr out \<and> sublist (word_open @ [34] @ tag_close) out \<and>
        out = ascii ''{ word { value: '' @ [34, 34, 34] @ ascii '' } }'' \<and> out \<noteq> [34])"
proof
  fix R
  from double_quote_keeps_word_tag [of R "[]" "[34]"]
  obtain out where out: "normalize R [34] = Inr out"
    and sub: "sublist (word_open @ [34] @ tag_close) out"
    by auto
  have tok: "tokenize_text R [34] = [[34]]"
    by (simp add: char_defs)
  have "normalize R [34] = Inr (ascii ''{ word { value: '' @ [34, 34, 34] @ ascii '' } }'')"
    by (simp add: normalize_def init_eq normalize_text_def classify_sentence_def tok
        classify_token_def quote_classes strip_tags_def tag_defs ascii_def isspace_def)
  with out have e: "out = ascii ''{ word { value: '' @ [34, 34, 34] @ ascii '' } }''"
    by simp
  then have "out \<noteq> [34]"
    by (simp add: ascii_def)
  with out sub e quote_classes(5) [of R]
  show "34 \<in> set [34::nat] \<and> \<not> isdigit R [34] \<and>
     (\<exists>out. normalize R [34] = Inr out \<and> sublist (word_open @ [34] @ tag_close) out \<and>
        out = ascii ''{ word { value: '' @ [34, 34, 34] @ ascii '' } }'' \<and> out \<noteq> [34])"
    by simp
qed

end
